theory Spec2Isabelle
  imports Main
begin

section \<open>Data model (app/models.py)\<close>

text \<open>
  The four transaction types of \<^verbatim>\<open>TransactionType\<close>.
\<close>

datatype TransactionType = TOPUP | PURCHASE | BONUS | REFUND

text \<open>
  One row of the \<^verbatim>\<open>accounts\<close> table. Python integers and BigInteger columns
  are unbounded \<open>int\<close> here; \<open>created_at\<close> is a server timestamp and is left out.
\<close>

record Account =
  acc_id :: int
  user_id :: "int option"
  name :: string
  currency :: string
  balance :: int
  version :: int

record Transaction =
  tx_id :: int
  reference_id :: string
  tx_type :: TransactionType
  description :: string

text \<open>
  A posting as \<^verbatim>\<open>process_transaction\<close> builds it: the three columns it sets.
\<close>

record Posting =
  transaction_id :: int
  account_id :: int
  amount :: int

section \<open>Errors (app/exceptions.py and the Python run time)\<close>

text \<open>
  \<open>ValueError\<close> carries the observed sum, the three wallet exceptions carry what their
  constructors take. \<open>MultipleResultsFound\<close>, \<open>IndexError\<close> and \<open>KeyError\<close> are the
  exceptions the library calls raise on tables that break a key constraint.
\<close>

datatype error =
    ValueError int
  | IdempotencyError string
  | AccountNotFoundError int
  | InsufficientFundsError int
  | MultipleResultsFound
  | IndexError
  | KeyError int

section \<open>The unit of work\<close>

text \<open>
  The state one \<^verbatim>\<open>AsyncSession\<close> sees: the three tables, the sequence that
  numbers new transaction rows, and the account rows it holds locked
  (\<^verbatim>\<open>SELECT ... FOR UPDATE\<close>), in the order the locks were taken.
\<close>

record session =
  accounts :: "Account list"
  transactions :: "Transaction list"
  postings :: "Posting list"
  tx_seq :: int
  locked :: "int list"

text \<open>\<^verbatim>\<open>result.scalar_one_or_none()\<close>: no row, the one row, or an exception.\<close>

fun scalar_one_or_none :: "'a list \<Rightarrow> error + 'a option" where
  "scalar_one_or_none [] = Inr None"
| "scalar_one_or_none [x] = Inr (Some x)"
| "scalar_one_or_none (x # y # zs) = Inl MultipleResultsFound"

text \<open>
  \<^verbatim>\<open>select(Account).where(Account.id.in_(ids)).order_by(Account.id).with_for_update()\<close>:
  the rows whose id is among \<open>ids\<close>, ascending by id.
\<close>

definition select_for_update :: "session \<Rightarrow> int list \<Rightarrow> Account list" where
  "select_for_update db ids =
     sort_key acc_id (filter (\<lambda>a. acc_id a \<in> set ids) (accounts db))"

text \<open>The names line 113 of the ledger service exempts from the floor.\<close>

definition exempt_names :: "string list" where
  "exempt_names = [''Equity'', ''Treasury'']"

text \<open>
  \<^verbatim>\<open>account.balance = new_balance\<close> on the session's object for that primary key.
\<close>

definition set_balance :: "int \<Rightarrow> int \<Rightarrow> Account list \<Rightarrow> Account list" where
  "set_balance i b accs =
     map (\<lambda>a. if acc_id a = i then a\<lparr>balance := b\<rparr> else a) accs"

text \<open>
  Step 5, the loop over \<open>entries\<close>. \<open>accounts_map[account_id]\<close> is the session's object
  with that primary key (the table has at most one row for a key), so its balance is
  read from the running state, and an id without a row is a \<open>KeyError\<close>. The loop
  returns the exception that stopped it, if any, and the state it had reached: the
  entries before the failing one are posted in the session.
\<close>

fun post_entries :: "int \<Rightarrow> session \<Rightarrow> (int \<times> int) list \<Rightarrow> error option \<times> session" where
  "post_entries txid db [] = (None, db)"
| "post_entries txid db ((aid, amt) # rest) =
     (case find (\<lambda>a. acc_id a = aid) (accounts db) of
        None \<Rightarrow> (Some (KeyError aid), db)
      | Some account \<Rightarrow>
          (let new_balance = balance account + amt in
           if new_balance < 0 \<and> name account \<notin> set exempt_names
           then (Some (InsufficientFundsError aid), db)
           else post_entries txid
                  (db\<lparr>accounts := set_balance aid new_balance (accounts db),
                      postings := postings db @
                        [\<lparr>transaction_id = txid, account_id = acc_id account,
                          amount = amt\<rparr>]\<rparr>)
                  rest))"

text \<open>
  \<^verbatim>\<open>LedgerService.process_transaction\<close>. The first argument stands for
  \<^verbatim>\<open>list(missing_ids)[0]\<close>: the first element of a Python set in its iteration
  order, which the language leaves open. The result pairs what the call returns or
  raises with the state of the session afterwards.
\<close>

definition process_transaction ::
  "(int set \<Rightarrow> int) \<Rightarrow> session \<Rightarrow> string \<Rightarrow> TransactionType \<Rightarrow> string \<Rightarrow>
   (int \<times> int) list \<Rightarrow> (error + Transaction) \<times> session" where
  "process_transaction first_of db ref ty descr entries =
     (let total_amount = sum_list (map snd entries) in
      if total_amount \<noteq> 0 then (Inl (ValueError total_amount), db)
      else
        (case scalar_one_or_none (filter (\<lambda>t. reference_id t = ref) (transactions db)) of
           Inl e \<Rightarrow> (Inl e, db)
         | Inr (Some existing_tx) \<Rightarrow> (Inl (IdempotencyError ref), db)
         | Inr None \<Rightarrow>
             (let unique_account_ids = sort (remdups (map fst entries));
                  accts = select_for_update db unique_account_ids;
                  db1 = db\<lparr>locked := locked db @ map acc_id accts\<rparr>
              in
              if length accts \<noteq> length unique_account_ids then
                (let found_ids = set (map acc_id accts);
                     missing_ids = set unique_account_ids - found_ids
                 in if missing_ids = {} then (Inl IndexError, db1)
                    else (Inl (AccountNotFoundError (first_of missing_ids)), db1))
              else
                (let transaction = \<lparr>tx_id = tx_seq db1, reference_id = ref,
                                     tx_type = ty, description = descr\<rparr>;
                     db2 = db1\<lparr>transactions := transactions db1 @ [transaction],
                               tx_seq := tx_seq db1 + 1\<rparr>
                 in case post_entries (tx_id transaction) db2 entries of
                      (Some e, db3) \<Rightarrow> (Inl e, db3)
                    | (None, db3) \<Rightarrow> (Inr transaction, db3)))))"

section \<open>Commit or roll back (app/routers/wallet.py, app/database.py)\<close>

text \<open>
  \<^verbatim>\<open>AsyncSessionLocal()\<close> opens a session on the committed database; it holds no
  lock yet.
\<close>

definition begin_session :: "session \<Rightarrow> session" where
  "begin_session durable = durable\<lparr>locked := []\<rparr>"

text \<open>
  \<^verbatim>\<open>await db.commit()\<close>: what the session holds becomes the committed database and
  the row locks are released.
\<close>

definition commit :: "session \<Rightarrow> session" where
  "commit db = db\<lparr>locked := []\<rparr>"

text \<open>
  \<^verbatim>\<open>await session.close()\<close> in \<^verbatim>\<open>get_db\<close> with nothing committed: the open
  database transaction is rolled back, so the tables are the committed ones again.
  A PostgreSQL sequence is not rolled back: the numbers it handed out stay used.
\<close>

definition close :: "session \<Rightarrow> session \<Rightarrow> session" where
  "close durable db = durable\<lparr>tx_seq := tx_seq db, locked := []\<rparr>"

text \<open>
  The unit of work the three handlers share (lines 50-60, 78-88 and 106-116 of the
  router, inside the session \<^verbatim>\<open>get_db\<close> yields): call the service, commit when it
  returns, and let the session close without a commit when it raises.
\<close>

definition process ::
  "(int set \<Rightarrow> int) \<Rightarrow> session \<Rightarrow> string \<Rightarrow> TransactionType \<Rightarrow> string \<Rightarrow>
   (int \<times> int) list \<Rightarrow> (error + Transaction) \<times> session" where
  "process first_of durable ref ty descr entries =
     (case process_transaction first_of (begin_session durable) ref ty descr entries of
        (Inr tx, db) \<Rightarrow> (Inr tx, commit db)
      | (Inl e, db) \<Rightarrow> (Inl e, close durable db))"

text \<open>The three tables of a database state.\<close>

definition tables :: "session \<Rightarrow> Account list \<times> Transaction list \<times> Posting list" where
  "tables db = (accounts db, transactions db, postings db)"

text \<open>
  \<^verbatim>\<open>TransactionRequest\<close> of app/schemas.py with the \<open>user_id\<close> its three subclasses
  add. The framework validates a request (\<open>amount > 0\<close>) before a handler runs; the
  handlers below take any request.
\<close>

record request =
  req_reference_id :: string
  req_amount :: int
  req_description :: "string option"
  req_user_id :: int

text \<open>What a handler raises: an \<open>HTTPException\<close> with its status, or an exception it does not catch.\<close>

datatype detail = SystemAccountNotFound string | UserWalletNotFound | WalletError error

datatype failure = HTTPException nat detail | Uncaught error

text \<open>\<^verbatim>\<open>get_system_account\<close>: the one account of that name.\<close>

definition get_system_account :: "session \<Rightarrow> string \<Rightarrow> failure + Account" where
  "get_system_account db n =
     (case scalar_one_or_none (filter (\<lambda>a. name a = n) (accounts db)) of
        Inl e \<Rightarrow> Inl (Uncaught e)
      | Inr None \<Rightarrow> Inl (HTTPException 500 (SystemAccountNotFound n))
      | Inr (Some account) \<Rightarrow> Inr account)"

text \<open>
  \<^verbatim>\<open>get_user_main_account\<close>: the first account the query returns for the user. The
  query has no \<open>ORDER BY\<close>; the rows come in table order here.
\<close>

definition get_user_main_account :: "session \<Rightarrow> int \<Rightarrow> failure + Account" where
  "get_user_main_account db uid =
     (case filter (\<lambda>a. user_id a = Some uid) (accounts db) of
        [] \<Rightarrow> Inl (HTTPException 404 UserWalletNotFound)
      | account # _ \<Rightarrow> Inr account)"

text \<open>\<^verbatim>\<open>request.description or default\<close>: \<open>None\<close> and the empty string are falsy.\<close>

definition description_or :: "string option \<Rightarrow> string \<Rightarrow> string" where
  "description_or d dflt = (case d of None \<Rightarrow> dflt | Some s \<Rightarrow> if s = [] then dflt else s)"

text \<open>
  The \<^verbatim>\<open>try\<close> block of a handler: \<open>ValueError\<close> and the library's exceptions are not
  a \<open>WalletException\<close> and pass through; the wallet exceptions become status 400.
\<close>

definition is_wallet_exception :: "error \<Rightarrow> bool" where
  "is_wallet_exception e =
     (case e of IdempotencyError _ \<Rightarrow> True | AccountNotFoundError _ \<Rightarrow> True
      | InsufficientFundsError _ \<Rightarrow> True | _ \<Rightarrow> False)"

definition try_process ::
  "(int set \<Rightarrow> int) \<Rightarrow> session \<Rightarrow> string \<Rightarrow> TransactionType \<Rightarrow> string \<Rightarrow>
   (int \<times> int) list \<Rightarrow> (failure + Transaction) \<times> session" where
  "try_process first_of durable ref ty descr entries =
     (case process first_of durable ref ty descr entries of
        (Inr tx, db) \<Rightarrow> (Inr tx, db)
      | (Inl e, db) \<Rightarrow>
          (if is_wallet_exception e then (Inl (HTTPException 400 (WalletError e)), db)
           else (Inl (Uncaught e), db)))"

text \<open>
  The three handlers: look up Treasury and the user's wallet, build the two entries,
  run the unit of work. A top-up and a bonus debit Treasury and credit the wallet, a
  purchase debits the wallet (its entry comes first) and credits Treasury.
\<close>

definition top_up :: "(int set \<Rightarrow> int) \<Rightarrow> session \<Rightarrow> request \<Rightarrow> (failure + Transaction) \<times> session" where
  "top_up first_of durable r =
     (case get_system_account durable ''Treasury'' of
        Inl f \<Rightarrow> (Inl f, durable)
      | Inr treasury \<Rightarrow>
          (case get_user_main_account durable (req_user_id r) of
             Inl f \<Rightarrow> (Inl f, durable)
           | Inr user_wallet \<Rightarrow>
               try_process first_of durable (req_reference_id r) TOPUP
                 (description_or (req_description r) ''Wallet Top-up'')
                 [(acc_id treasury, - req_amount r), (acc_id user_wallet, req_amount r)]))"

definition bonus :: "(int set \<Rightarrow> int) \<Rightarrow> session \<Rightarrow> request \<Rightarrow> (failure + Transaction) \<times> session" where
  "bonus first_of durable r =
     (case get_system_account durable ''Treasury'' of
        Inl f \<Rightarrow> (Inl f, durable)
      | Inr treasury \<Rightarrow>
          (case get_user_main_account durable (req_user_id r) of
             Inl f \<Rightarrow> (Inl f, durable)
           | Inr user_wallet \<Rightarrow>
               try_process first_of durable (req_reference_id r) BONUS
                 (description_or (req_description r) ''Bonus Credit'')
                 [(acc_id treasury, - req_amount r), (acc_id user_wallet, req_amount r)]))"

definition spend :: "(int set \<Rightarrow> int) \<Rightarrow> session \<Rightarrow> request \<Rightarrow> (failure + Transaction) \<times> session" where
  "spend first_of durable r =
     (case get_system_account durable ''Treasury'' of
        Inl f \<Rightarrow> (Inl f, durable)
      | Inr treasury \<Rightarrow>
          (case get_user_main_account durable (req_user_id r) of
             Inl f \<Rightarrow> (Inl f, durable)
           | Inr user_wallet \<Rightarrow>
               try_process first_of durable (req_reference_id r) PURCHASE
                 (description_or (req_description r) ''Purchase Item'')
                 [(acc_id user_wallet, - req_amount r), (acc_id treasury, req_amount r)]))"

section \<open>The database the seed script leaves (seed.py)\<close>

text \<open>
  \<^verbatim>\<open>seed()\<close> run on empty tables whose keys count from 1: users system, alice and
  bob (1, 2, 3), the four accounts, the genesis transaction and the two welcome
  bonuses, each with its two postings and balance updates (lines 57-62, 76-81 and
  92-97).
\<close>

definition seed :: session where
  "seed =
     \<lparr>accounts =
        [\<lparr>acc_id = 1, user_id = Some 1, name = ''Equity'', currency = ''GOLD'',
          balance = - 1000000000, version = 0\<rparr>,
         \<lparr>acc_id = 2, user_id = Some 1, name = ''Treasury'', currency = ''GOLD'',
          balance = 999999850, version = 0\<rparr>,
         \<lparr>acc_id = 3, user_id = Some 2, name = ''Alice's Wallet'', currency = ''GOLD'',
          balance = 100, version = 0\<rparr>,
         \<lparr>acc_id = 4, user_id = Some 3, name = ''Bob's Wallet'', currency = ''GOLD'',
          balance = 50, version = 0\<rparr>],
      transactions =
        [\<lparr>tx_id = 1, reference_id = ''genesis_001'', tx_type = TOPUP,
          description = ''Initial Capital Injection''\<rparr>,
         \<lparr>tx_id = 2, reference_id = ''seed_alice_001'', tx_type = BONUS,
          description = ''Welcome Bonus for Alice''\<rparr>,
         \<lparr>tx_id = 3, reference_id = ''seed_bob_001'', tx_type = BONUS,
          description = ''Welcome Bonus for Bob''\<rparr>],
      postings =
        [\<lparr>transaction_id = 1, account_id = 2, amount = 1000000000\<rparr>,
         \<lparr>transaction_id = 1, account_id = 1, amount = - 1000000000\<rparr>,
         \<lparr>transaction_id = 2, account_id = 2, amount = - 100\<rparr>,
         \<lparr>transaction_id = 2, account_id = 3, amount = 100\<rparr>,
         \<lparr>transaction_id = 3, account_id = 2, amount = - 50\<rparr>,
         \<lparr>transaction_id = 3, account_id = 4, amount = 50\<rparr>],
      tx_seq = 4,
      locked = []\<rparr>"

section \<open>Constraints and invariants\<close>

text \<open>
  What the schema enforces on every database state: the primary keys of accounts and
  transactions, the unique \<open>reference_id\<close>, the two foreign keys of a posting, and a
  sequence that is ahead of every transaction id in use.
\<close>

definition consistent :: "session \<Rightarrow> bool" where
  "consistent db \<longleftrightarrow>
     distinct (map acc_id (accounts db)) \<and>
     distinct (map tx_id (transactions db)) \<and>
     distinct (map reference_id (transactions db)) \<and>
     list_all (\<lambda>t. tx_id t < tx_seq db) (transactions db) \<and>
     list_all (\<lambda>p. transaction_id p \<in> set (map tx_id (transactions db))) (postings db) \<and>
     list_all (\<lambda>p. account_id p \<in> set (map acc_id (accounts db))) (postings db)"

text \<open>The sum of the amounts of the postings that reference account \<open>i\<close>.\<close>

definition posted :: "session \<Rightarrow> int \<Rightarrow> int" where
  "posted db i = sum_list (map amount (filter (\<lambda>p. account_id p = i) (postings db)))"

text \<open>Balance derivation: every stored balance is the sum of the account's postings.\<close>

definition balances_derived :: "session \<Rightarrow> bool" where
  "balances_derived db = list_all (\<lambda>a. balance a = posted db (acc_id a)) (accounts db)"

text \<open>The postings that belong to transaction \<open>t\<close>.\<close>

definition postings_of :: "session \<Rightarrow> int \<Rightarrow> Posting list" where
  "postings_of db t = filter (\<lambda>p. transaction_id p = t) (postings db)"

text \<open>The net effect of an entry list on account \<open>i\<close>: the sum of its amounts for \<open>i\<close>.\<close>

definition net :: "(int \<times> int) list \<Rightarrow> int \<Rightarrow> int" where
  "net entries i = sum_list (map snd (filter (\<lambda>e. fst e = i) entries))"

text \<open>The row of account \<open>i\<close>, if the table has one.\<close>

definition account_of :: "session \<Rightarrow> int \<Rightarrow> Account option" where
  "account_of db i = find (\<lambda>a. acc_id a = i) (accounts db)"

text \<open>The posting row the loop adds for one entry of transaction \<open>t\<close>.\<close>

definition posting_of :: "int \<Rightarrow> int \<times> int \<Rightarrow> Posting" where
  "posting_of t e = \<lparr>transaction_id = t, account_id = fst e, amount = snd e\<rparr>"

text \<open>Line 78: the distinct account ids of the entries, ascending.\<close>

definition unique_account_ids :: "(int \<times> int) list \<Rightarrow> int list" where
  "unique_account_ids entries = sort (remdups (map fst entries))"

text \<open>The session once step 3 has run its locking query.\<close>

definition locked_session :: "session \<Rightarrow> (int \<times> int) list \<Rightarrow> session" where
  "locked_session db entries =
     db\<lparr>locked := locked db @ map acc_id (select_for_update db (unique_account_ids entries))\<rparr>"

text \<open>The transaction row step 4 creates; the flush numbers it from the sequence.\<close>

definition new_transaction :: "session \<Rightarrow> string \<Rightarrow> TransactionType \<Rightarrow> string \<Rightarrow> Transaction" where
  "new_transaction db ref ty descr =
     \<lparr>tx_id = tx_seq db, reference_id = ref, tx_type = ty, description = descr\<rparr>"

text \<open>The session after the flush of step 4, as the loop of step 5 finds it.\<close>

definition flushed :: "session \<Rightarrow> string \<Rightarrow> TransactionType \<Rightarrow> string \<Rightarrow> (int \<times> int) list \<Rightarrow> session" where
  "flushed db ref ty descr entries =
     (locked_session db entries)
       \<lparr>transactions := transactions db @ [new_transaction db ref ty descr],
        tx_seq := tx_seq db + 1\<rparr>"

text \<open>
  A sequence of calls, each its own unit of work on the database the one before left:
  reference id, type, description and entries of every call.
\<close>

type_synonym call = "string \<times> TransactionType \<times> string \<times> (int \<times> int) list"

fun run :: "(int set \<Rightarrow> int) \<Rightarrow> session \<Rightarrow> call list \<Rightarrow> session" where
  "run first_of db [] = db"
| "run first_of db ((ref, ty, descr, entries) # calls) =
     run first_of (snd (process first_of db ref ty descr entries)) calls"

text \<open>
  The check of line 113 as the loop meets it at entry \<open>k\<close>: the entry's account exists
  and is exempt, or its balance before the call plus the amounts of its entries up to
  and including entry \<open>k\<close> is not negative.
\<close>

definition entry_ok :: "session \<Rightarrow> (int \<times> int) list \<Rightarrow> nat \<Rightarrow> bool" where
  "entry_ok db entries k =
     (case account_of db (fst (entries ! k)) of
        None \<Rightarrow> False
      | Some a \<Rightarrow>
          name a \<in> set exempt_names \<or>
          0 \<le> balance a + net (take (Suc k) entries) (fst (entries ! k)))"

definition entries_ok :: "session \<Rightarrow> (int \<times> int) list \<Rightarrow> bool" where
  "entries_ok db entries = list_all (entry_ok db entries) [0..<length entries]"

text \<open>
  The check as section 4.1 of the specification words it, on pre-aggregated amounts:
  every account the entries name exists and is exempt, or its balance plus the net
  effect of the entries on it is not negative.
\<close>

definition net_ok :: "session \<Rightarrow> (int \<times> int) list \<Rightarrow> bool" where
  "net_ok db entries =
     list_all
       (\<lambda>i. case account_of db i of
              None \<Rightarrow> False
            | Some a \<Rightarrow> name a \<in> set exempt_names \<or> 0 \<le> balance a + net entries i)
       (unique_account_ids entries)"

text \<open>A purchase of 80 by user 3, whose wallet the seed funds with 50.\<close>

definition bob_spends_80 :: request where
  "bob_spends_80 = \<lparr>req_reference_id = ''r9'', req_amount = 80, req_description = None,
     req_user_id = 3\<rparr>"

section \<open>The posting loop\<close>

text \<open>One iteration of the loop: a missing key, a rejected entry, or a posted one.\<close>

lemma post_entries_Cons_cases [case_names missing reject step]:
  obtains
    (missing) "find (\<lambda>a. acc_id a = i) (accounts db) = None"
      "post_entries t db ((i, m) # es) = (Some (KeyError i), db)"
  | (reject) a where "find (\<lambda>a. acc_id a = i) (accounts db) = Some a"
      "balance a + m < 0" "name a \<notin> set exempt_names"
      "post_entries t db ((i, m) # es) = (Some (InsufficientFundsError i), db)"
  | (step) a where "find (\<lambda>a. acc_id a = i) (accounts db) = Some a"
      "0 \<le> balance a + m \<or> name a \<in> set exempt_names"
      "post_entries t db ((i, m) # es) =
         post_entries t
           (db\<lparr>accounts := set_balance i (balance a + m) (accounts db),
               postings := postings db @
                 [\<lparr>transaction_id = t, account_id = acc_id a, amount = m\<rparr>]\<rparr>) es"
proof (cases "find (\<lambda>a. acc_id a = i) (accounts db)")
  case None
  then show ?thesis using missing by simp
next
  case (Some a)
  show ?thesis
  proof (cases "balance a + m < 0 \<and> name a \<notin> set exempt_names")
    case True
    then show ?thesis using Some reject[of a] by (simp add: Let_def)
  next
    case False
    then have "0 \<le> balance a + m \<or> name a \<in> set exempt_names" by auto
    moreover have "post_entries t db ((i, m) # es) =
         post_entries t
           (db\<lparr>accounts := set_balance i (balance a + m) (accounts db),
               postings := postings db @
                 [\<lparr>transaction_id = t, account_id = acc_id a, amount = m\<rparr>]\<rparr>) es"
      using Some False by (auto simp: Let_def)
    ultimately show ?thesis using Some step[of a] by blast
  qed
qed

lemma find_acc_id: "find (\<lambda>a. acc_id a = i) xs = Some a \<Longrightarrow> acc_id a = i \<and> a \<in> set xs"
  by (induction xs) (auto split: if_splits)

lemma find_acc_id_None: "find (\<lambda>a. acc_id a = i) xs = None \<longleftrightarrow> i \<notin> acc_id ` set xs"
  by (induction xs) (auto split: if_splits)

lemma post_entries_transactions [simp]:
  "transactions (snd (post_entries t db es)) = transactions db"
  by (induction es arbitrary: db) (auto split: option.splits simp: Let_def)

lemma post_entries_tx_seq [simp]:
  "tx_seq (snd (post_entries t db es)) = tx_seq db"
  by (induction es arbitrary: db) (auto split: option.splits simp: Let_def)

lemma post_entries_locked [simp]:
  "locked (snd (post_entries t db es)) = locked db"
  by (induction es arbitrary: db) (auto split: option.splits simp: Let_def)

lemma set_balance_fields:
  "map (\<lambda>a. a\<lparr>balance := 0\<rparr>) (set_balance i b accs) = map (\<lambda>a. a\<lparr>balance := 0\<rparr>) accs"
  by (induction accs) (auto simp: set_balance_def)

lemma post_entries_fields:
  "map (\<lambda>a. a\<lparr>balance := 0\<rparr>) (accounts (snd (post_entries t db es))) =
   map (\<lambda>a. a\<lparr>balance := 0\<rparr>) (accounts db)"
  by (induction es arbitrary: db) (auto split: option.splits simp: Let_def set_balance_fields)

lemma set_balance_other:
  "i \<notin> S \<Longrightarrow> filter (\<lambda>a. acc_id a \<in> S) (set_balance i b accs) = filter (\<lambda>a. acc_id a \<in> S) accs"
  by (induction accs) (auto simp: set_balance_def)

lemma filter_narrow:
  "S \<subseteq> T \<Longrightarrow> filter (\<lambda>a. f a \<in> S) xs = filter (\<lambda>a. f a \<in> S) (filter (\<lambda>a. f a \<in> T) xs)"
  by (induction xs) auto

lemma post_entries_untouched_set:
  "S \<inter> fst ` set es = {} \<Longrightarrow>
   filter (\<lambda>a. acc_id a \<in> S) (accounts (snd (post_entries t db es))) =
   filter (\<lambda>a. acc_id a \<in> S) (accounts db)"
proof (induction es arbitrary: db)
  case Nil
  then show ?case by simp
next
  case (Cons e es)
  obtain i m where e: "e = (i, m)" by (cases e)
  from Cons.prems have S: "i \<notin> S" "S \<inter> fst ` set es = {}" by (auto simp: e)
  show ?case
  proof (cases rule: post_entries_Cons_cases[of i db t m es])
    case missing
    then show ?thesis by (simp add: e)
  next
    case (reject a)
    then show ?thesis by (simp add: e)
  next
    case (step a)
    show ?thesis
      unfolding e step(3) using Cons.IH[OF S(2)] set_balance_other[OF S(1)] by simp
  qed
qed

lemma post_entries_untouched:
  "filter (\<lambda>a. acc_id a \<notin> fst ` set es) (accounts (snd (post_entries t db es))) =
   filter (\<lambda>a. acc_id a \<notin> fst ` set es) (accounts db)"
  using post_entries_untouched_set[of "- (fst ` set es)" es t db] by simp

lemma post_entries_postings_prefix:
  "\<exists>k \<le> length es. postings (snd (post_entries t db es)) = postings db @ map (posting_of t) (take k es)"
proof (induction es arbitrary: db)
  case Nil
  then show ?case by simp
next
  case (Cons e es)
  obtain i m where e: "e = (i, m)" by (cases e)
  show ?case
  proof (cases rule: post_entries_Cons_cases[of i db t m es])
    case missing
    then show ?thesis by (auto simp: e intro: exI[of _ 0])
  next
    case (reject a)
    then show ?thesis by (auto simp: e intro: exI[of _ 0])
  next
    case (step a)
    from Cons.IH[of "db\<lparr>accounts := set_balance i (balance a + m) (accounts db),
               postings := postings db @
                 [\<lparr>transaction_id = t, account_id = acc_id a, amount = m\<rparr>]\<rparr>"]
    obtain k where k: "k \<le> length es"
      "postings (snd (post_entries t db (e # es))) =
         (postings db @ [\<lparr>transaction_id = t, account_id = acc_id a, amount = m\<rparr>]) @
         map (posting_of t) (take k es)"
      unfolding e step(3) by auto
    have "acc_id a = i" using step(1) find_acc_id by blast
    then have "postings (snd (post_entries t db (e # es))) =
         postings db @ map (posting_of t) (take (Suc k) (e # es))"
      using k(2) by (simp add: e posting_of_def)
    then show ?thesis using k(1) by (intro exI[of _ "Suc k"]) simp
  qed
qed

lemma post_entries_postings_ok:
  "post_entries t db es = (None, db') \<Longrightarrow> postings db' = postings db @ map (posting_of t) es"
proof (induction es arbitrary: db)
  case Nil
  then show ?case by simp
next
  case (Cons e es)
  obtain i m where e: "e = (i, m)" by (cases e)
  show ?case
  proof (cases rule: post_entries_Cons_cases[of i db t m es])
    case missing
    then show ?thesis using Cons.prems by (simp add: e)
  next
    case (reject a)
    then show ?thesis using Cons.prems by (simp add: e)
  next
    case (step a)
    have "acc_id a = i" using step(1) find_acc_id by blast
    then show ?thesis
      using Cons.IH[of "db\<lparr>accounts := set_balance i (balance a + m) (accounts db),
               postings := postings db @
                 [\<lparr>transaction_id = t, account_id = acc_id a, amount = m\<rparr>]\<rparr>"]
        Cons.prems step(3)
      by (simp add: e posting_of_def)
  qed
qed

lemma set_balance_acc_id [simp]: "map acc_id (set_balance i b xs) = map acc_id xs"
  by (induction xs) (auto simp: set_balance_def)

lemma post_entries_acc_id [simp]:
  "map acc_id (accounts (snd (post_entries t db es))) = map acc_id (accounts db)"
proof -
  have "map acc_id (map (\<lambda>a. a\<lparr>balance := 0\<rparr>) (accounts (snd (post_entries t db es)))) =
        map acc_id (map (\<lambda>a. a\<lparr>balance := 0\<rparr>) (accounts db))"
    by (simp only: post_entries_fields)
  then show ?thesis by (simp add: o_def)
qed

lemma find_set_balance:
  "find (\<lambda>a. acc_id a = j) (set_balance i b xs) =
   map_option (\<lambda>a. if acc_id a = i then a\<lparr>balance := b\<rparr> else a) (find (\<lambda>a. acc_id a = j) xs)"
  by (induction xs) (auto simp: set_balance_def)

lemma net_Nil [simp]: "net [] j = 0"
  by (simp add: net_def)

lemma net_Cons [simp]: "net ((i, m) # es) j = (if i = j then m else 0) + net es j"
  by (simp add: net_def)

lemma net_unreferenced: "j \<notin> fst ` set es \<Longrightarrow> net es j = 0"
  by (induction es) (auto simp: net_def)


lemma account_of_post_entries:
  "post_entries t db es = (None, db') \<Longrightarrow>
   account_of db' j = map_option (\<lambda>a. a\<lparr>balance := balance a + net es j\<rparr>) (account_of db j)"
proof (induction es arbitrary: db)
  case Nil
  then show ?case by (cases "account_of db j") auto
next
  case (Cons e es)
  obtain i m where e: "e = (i, m)" by (cases e)
  show ?case
  proof (cases rule: post_entries_Cons_cases[of i db t m es])
    case missing
    then show ?thesis using Cons.prems by (simp add: e)
  next
    case (reject a)
    then show ?thesis using Cons.prems by (simp add: e)
  next
    case (step a)
    let ?db1 = "db\<lparr>accounts := set_balance i (balance a + m) (accounts db),
               postings := postings db @
                 [\<lparr>transaction_id = t, account_id = acc_id a, amount = m\<rparr>]\<rparr>"
    have run: "post_entries t ?db1 es = (None, db')"
      using Cons.prems step(3) by (simp add: e)
    have ih: "account_of db' j =
        map_option (\<lambda>a. a\<lparr>balance := balance a + net es j\<rparr>) (account_of ?db1 j)"
      by (rule Cons.IH[OF run])
    have one: "account_of ?db1 j =
        map_option (\<lambda>x. if acc_id x = i then x\<lparr>balance := balance a + m\<rparr> else x) (account_of db j)"
      by (simp add: account_of_def find_set_balance)
    show ?thesis
    proof (cases "account_of db j")
      case None
      then show ?thesis using ih one by simp
    next
      case (Some x)
      then have xj: "acc_id x = j" unfolding account_of_def using find_acc_id by blast
      show ?thesis
      proof (cases "i = j")
        case True
        then have "x = a" using Some step(1) by (simp add: account_of_def)
        then show ?thesis using ih one Some True xj by (simp add: e ac_simps)
      next
        case False
        then show ?thesis using ih one Some xj by (simp add: e)
      qed
    qed
  qed
qed

lemma post_entries_floor:
  "post_entries t db es = (None, db') \<Longrightarrow> j \<in> fst ` set es \<Longrightarrow> account_of db' j = Some a' \<Longrightarrow>
   name a' \<in> set exempt_names \<or> 0 \<le> balance a'"
proof (induction es arbitrary: db)
  case Nil
  then show ?case by simp
next
  case (Cons e es)
  obtain i m where e: "e = (i, m)" by (cases e)
  show ?case
  proof (cases rule: post_entries_Cons_cases[of i db t m es])
    case missing
    then show ?thesis using Cons.prems by (simp add: e)
  next
    case (reject a)
    then show ?thesis using Cons.prems by (simp add: e)
  next
    case (step a)
    let ?db1 = "db\<lparr>accounts := set_balance i (balance a + m) (accounts db),
               postings := postings db @
                 [\<lparr>transaction_id = t, account_id = acc_id a, amount = m\<rparr>]\<rparr>"
    have run: "post_entries t ?db1 es = (None, db')"
      using Cons.prems step(3) by (simp add: e)
    show ?thesis
    proof (cases "j \<in> fst ` set es")
      case True
      then show ?thesis using Cons.IH[OF run True Cons.prems(3)] by simp
    next
      case False
      then have ji: "j = i" using Cons.prems(2) by (auto simp: e)
      have ai: "acc_id a = i" using step(1) find_acc_id by blast
      have "account_of db' j =
        map_option (\<lambda>a. a\<lparr>balance := balance a + net es j\<rparr>) (account_of ?db1 j)"
        by (rule account_of_post_entries[OF run])
      also have "account_of ?db1 j = Some (a\<lparr>balance := balance a + m\<rparr>)"
        using step(1) ai by (simp add: account_of_def find_set_balance ji)
      finally have "a' = a\<lparr>balance := balance a + m\<rparr>"
        using Cons.prems(3) net_unreferenced[OF False] by simp
      then show ?thesis using step(2) by auto
    qed
  qed
qed

lemma post_entries_error:
  "post_entries t db es = (Some e, db') \<Longrightarrow>
   \<exists>i \<in> fst ` set es.
     (e = KeyError i \<and> i \<notin> acc_id ` set (accounts db)) \<or>
     (e = InsufficientFundsError i \<and> i \<in> acc_id ` set (accounts db))"
proof (induction es arbitrary: db)
  case Nil
  then show ?case by simp
next
  case (Cons x es)
  obtain i m where x: "x = (i, m)" by (cases x)
  show ?case
  proof (cases rule: post_entries_Cons_cases[of i db t m es])
    case missing
    then show ?thesis using Cons.prems by (auto simp: x find_acc_id_None)
  next
    case (reject a)
    then have "i \<in> acc_id ` set (accounts db)" using find_acc_id by (metis imageI)
    then show ?thesis using reject Cons.prems by (auto simp: x)
  next
    case (step a)
    let ?db1 = "db\<lparr>accounts := set_balance i (balance a + m) (accounts db),
               postings := postings db @
                 [\<lparr>transaction_id = t, account_id = acc_id a, amount = m\<rparr>]\<rparr>"
    have run: "post_entries t ?db1 es = (Some e, db')"
      using Cons.prems step(3) by (simp add: x)
    have "acc_id ` set (accounts ?db1) = acc_id ` set (accounts db)"
    proof -
      have "set (map acc_id (accounts ?db1)) = set (map acc_id (accounts db))"
        by simp
      then show ?thesis by (simp only: set_map)
    qed
    then show ?thesis using Cons.IH[OF run] by (auto simp: x)
  qed
qed

lemma posted_step:
  assumes "balances_derived db" and "find (\<lambda>a. acc_id a = i) (accounts db) = Some a"
  shows "balances_derived (db\<lparr>accounts := set_balance i (balance a + m) (accounts db),
               postings := postings db @
                 [\<lparr>transaction_id = t, account_id = acc_id a, amount = m\<rparr>]\<rparr>)"
proof -
  have ai: "acc_id a = i" "a \<in> set (accounts db)" using assms(2) find_acc_id by blast+
  have inv: "\<And>x. x \<in> set (accounts db) \<Longrightarrow> balance x = posted db (acc_id x)"
    using assms(1) by (simp add: balances_derived_def list_all_iff)
  have "balance a = posted db i" using inv[OF ai(2)] ai(1) by simp
  then show ?thesis
    using inv ai(1)
    by (auto simp: balances_derived_def list_all_iff set_balance_def posted_def)
qed

lemma post_entries_derived:
  "balances_derived db \<Longrightarrow> balances_derived (snd (post_entries t db es))"
proof (induction es arbitrary: db)
  case Nil
  then show ?case by simp
next
  case (Cons x es)
  obtain i m where x: "x = (i, m)" by (cases x)
  show ?case
  proof (cases rule: post_entries_Cons_cases[of i db t m es])
    case missing
    then show ?thesis using Cons.prems by (simp add: x)
  next
    case (reject a)
    then show ?thesis using Cons.prems by (simp add: x)
  next
    case (step a)
    show ?thesis
      unfolding x step(3) by (rule Cons.IH[OF posted_step[OF Cons.prems step(1)]])
  qed
qed

section \<open>The steps before the loop\<close>

lemma unique_account_ids_set [simp]: "set (unique_account_ids es) = fst ` set es"
  by (simp add: unique_account_ids_def)

lemma unique_account_ids_distinct [simp]: "distinct (unique_account_ids es)"
  by (simp add: unique_account_ids_def)

lemma unique_account_ids_sorted [simp]: "sorted (unique_account_ids es)"
  by (simp add: unique_account_ids_def)

lemma select_for_update_ids:
  "set (map acc_id (select_for_update db ids)) = acc_id ` set (accounts db) \<inter> set ids"
  by (auto simp: select_for_update_def)

lemma select_for_update_sorted: "sorted (map acc_id (select_for_update db ids))"
  by (simp add: select_for_update_def)

lemma select_for_update_distinct:
  "distinct (map acc_id (accounts db)) \<Longrightarrow> distinct (map acc_id (select_for_update db ids))"
proof -
  assume "distinct (map acc_id (accounts db))"
  then have "distinct (map acc_id (filter (\<lambda>a. acc_id a \<in> set ids) (accounts db)))"
    by (rule distinct_map_filter)
  then show ?thesis
    by (simp add: select_for_update_def distinct_map)
qed

lemma select_for_update_length:
  assumes "distinct (map acc_id (accounts db))" and "distinct ids"
  shows "length (select_for_update db ids) = length ids \<longleftrightarrow> set ids \<subseteq> acc_id ` set (accounts db)"
proof -
  let ?found = "map acc_id (select_for_update db ids)"
  have d: "distinct ?found" by (rule select_for_update_distinct[OF assms(1)])
  have s: "set ?found = acc_id ` set (accounts db) \<inter> set ids" by (rule select_for_update_ids)
  have l: "length (select_for_update db ids) = card (set ?found)"
    using distinct_card[OF d] by simp
  have l': "length ids = card (set ids)" using distinct_card[OF assms(2)] by simp
  show ?thesis
  proof
    assume "length (select_for_update db ids) = length ids"
    then have "card (set ?found) = card (set ids)" using l l' by simp
    moreover have "set ?found \<subseteq> set ids" using s by auto
    ultimately have "set ?found = set ids" by (simp add: card_subset_eq)
    then show "set ids \<subseteq> acc_id ` set (accounts db)" using s by auto
  next
    assume "set ids \<subseteq> acc_id ` set (accounts db)"
    then have "set ?found = set ids" using s by auto
    then show "length (select_for_update db ids) = length ids" using l l' by simp
  qed
qed

lemma filter_reference_unique:
  "distinct (map reference_id ts) \<Longrightarrow>
   filter (\<lambda>t. reference_id t = r) ts = [] \<or> (\<exists>x. filter (\<lambda>t. reference_id t = r) ts = [x])"
  by (induction ts) (auto simp: filter_empty_conv image_iff)

lemma lookup_reference:
  assumes "distinct (map reference_id ts)"
  shows "scalar_one_or_none (filter (\<lambda>t. reference_id t = r) ts) =
         (if r \<in> reference_id ` set ts then Inr (Some (the (find (\<lambda>t. reference_id t = r) ts))) else Inr None)"
proof (cases "r \<in> reference_id ` set ts")
  case True
  then have ne: "filter (\<lambda>t. reference_id t = r) ts \<noteq> []" by (auto simp: filter_empty_conv)
  then obtain x where x: "filter (\<lambda>t. reference_id t = r) ts = [x]"
    using filter_reference_unique[OF assms, of r] by auto
  have "find (\<lambda>t. reference_id t = r) ts = Some x"
    using x by (induction ts) (auto split: if_splits)
  then show ?thesis using True x by simp
next
  case False
  then have "filter (\<lambda>t. reference_id t = r) ts = []" by (auto simp: filter_empty_conv)
  then show ?thesis using False by simp
qed

lemma process_transaction_cases
  [case_names unbalanced multiple duplicate index_error not_found posted]:
  obtains
    (unbalanced) "sum_list (map snd es) \<noteq> 0"
      "process_transaction f db ref ty d es = (Inl (ValueError (sum_list (map snd es))), db)"
  | (multiple) "sum_list (map snd es) = 0"
      "scalar_one_or_none (filter (\<lambda>t. reference_id t = ref) (transactions db)) = Inl MultipleResultsFound"
      "process_transaction f db ref ty d es = (Inl MultipleResultsFound, db)"
  | (duplicate) x where "sum_list (map snd es) = 0"
      "scalar_one_or_none (filter (\<lambda>t. reference_id t = ref) (transactions db)) = Inr (Some x)"
      "process_transaction f db ref ty d es = (Inl (IdempotencyError ref), db)"
  | (index_error) "sum_list (map snd es) = 0"
      "scalar_one_or_none (filter (\<lambda>t. reference_id t = ref) (transactions db)) = Inr None"
      "length (select_for_update db (unique_account_ids es)) \<noteq> length (unique_account_ids es)"
      "fst ` set es \<subseteq> acc_id ` set (accounts db)"
      "process_transaction f db ref ty d es = (Inl IndexError, locked_session db es)"
  | (not_found) "sum_list (map snd es) = 0"
      "scalar_one_or_none (filter (\<lambda>t. reference_id t = ref) (transactions db)) = Inr None"
      "length (select_for_update db (unique_account_ids es)) \<noteq> length (unique_account_ids es)"
      "fst ` set es - acc_id ` set (accounts db) \<noteq> {}"
      "process_transaction f db ref ty d es =
         (Inl (AccountNotFoundError (f (fst ` set es - acc_id ` set (accounts db)))),
          locked_session db es)"
  | (posted) "sum_list (map snd es) = 0"
      "scalar_one_or_none (filter (\<lambda>t. reference_id t = ref) (transactions db)) = Inr None"
      "length (select_for_update db (unique_account_ids es)) = length (unique_account_ids es)"
      "process_transaction f db ref ty d es =
         (case post_entries (tx_seq db) (flushed db ref ty d es) es of
            (Some e, db3) \<Rightarrow> (Inl e, db3)
          | (None, db3) \<Rightarrow> (Inr (new_transaction db ref ty d), db3))"
proof (cases "sum_list (map snd es) = 0")
  case False
  then show ?thesis using unbalanced by (simp add: process_transaction_def)
next
  case bal: True
  show ?thesis
  proof (cases "scalar_one_or_none (filter (\<lambda>t. reference_id t = ref) (transactions db))")
    case (Inl e)
    then have "e = MultipleResultsFound"
      by (cases "filter (\<lambda>t. reference_id t = ref) (transactions db)" rule: scalar_one_or_none.cases) auto
    then show ?thesis using multiple bal Inl by (simp add: process_transaction_def)
  next
    case (Inr r)
    show ?thesis
    proof (cases r)
      case (Some x)
      then show ?thesis using duplicate[of x] bal Inr by (simp add: process_transaction_def)
    next
      case None
      note look = Inr[unfolded None]
      let ?uids = "unique_account_ids es"
      let ?accts = "select_for_update db ?uids"
      have missing: "set ?uids - set (map acc_id ?accts) = fst ` set es - acc_id ` set (accounts db)"
        unfolding select_for_update_ids by auto
      show ?thesis
      proof (cases "length ?accts = length ?uids")
        case True
        have "process_transaction f db ref ty d es =
         (case post_entries (tx_seq db) (flushed db ref ty d es) es of
            (Some e, db3) \<Rightarrow> (Inl e, db3)
          | (None, db3) \<Rightarrow> (Inr (new_transaction db ref ty d), db3))"
          unfolding process_transaction_def Let_def flushed_def locked_session_def
              new_transaction_def unique_account_ids_def
          using bal look True
          by (simp add: unique_account_ids_def split: prod.split option.split)
        then show ?thesis using posted bal look True by blast
      next
        case False
        let ?M = "fst ` set es - acc_id ` set (accounts db)"
        have "process_transaction f db ref ty d es =
            (if set ?uids - set (map acc_id ?accts) = {} then (Inl IndexError, locked_session db es)
             else (Inl (AccountNotFoundError (f (set ?uids - set (map acc_id ?accts)))),
                   locked_session db es))"
          unfolding process_transaction_def Let_def locked_session_def
          using bal look False
          by (simp add: unique_account_ids_def)
        then have pt: "process_transaction f db ref ty d es =
            (if ?M = {} then (Inl IndexError, locked_session db es)
             else (Inl (AccountNotFoundError (f ?M)), locked_session db es))"
          by (simp only: missing)
        show ?thesis
        proof (cases "?M = {}")
          case True
          then have "process_transaction f db ref ty d es = (Inl IndexError, locked_session db es)"
            using pt by simp
          moreover have "fst ` set es \<subseteq> acc_id ` set (accounts db)" using True by auto
          ultimately show ?thesis using index_error bal look False by blast
        next
          case ne: False
          then have "process_transaction f db ref ty d es =
             (Inl (AccountNotFoundError (f ?M)), locked_session db es)"
            using pt by simp
          then show ?thesis using not_found bal look False ne by blast
        qed
      qed
    qed
  qed
qed

lemma locked_session_simps [simp]:
  "accounts (locked_session db es) = accounts db"
  "transactions (locked_session db es) = transactions db"
  "postings (locked_session db es) = postings db"
  "tx_seq (locked_session db es) = tx_seq db"
  by (simp_all add: locked_session_def)

lemma flushed_simps [simp]:
  "accounts (flushed db ref ty d es) = accounts db"
  "transactions (flushed db ref ty d es) = transactions db @ [new_transaction db ref ty d]"
  "postings (flushed db ref ty d es) = postings db"
  "tx_seq (flushed db ref ty d es) = tx_seq db + 1"
  "locked (flushed db ref ty d es) = locked (locked_session db es)"
  by (simp_all add: flushed_def)

lemma new_transaction_simps [simp]:
  "tx_id (new_transaction db ref ty d) = tx_seq db"
  "reference_id (new_transaction db ref ty d) = ref"
  "tx_type (new_transaction db ref ty d) = ty"
  "description (new_transaction db ref ty d) = d"
  by (simp_all add: new_transaction_def)

lemma scalar_one_or_none_None: "scalar_one_or_none xs = Inr None \<longleftrightarrow> xs = []"
  by (cases xs rule: scalar_one_or_none.cases) auto

lemma process_transaction_duplicate:
  "sum_list (map snd es) = 0 \<Longrightarrow>
   scalar_one_or_none (filter (\<lambda>t. reference_id t = ref) (transactions db)) = Inr (Some x) \<Longrightarrow>
   process_transaction f db ref ty d es = (Inl (IdempotencyError ref), db)"
  by (simp add: process_transaction_def)

text \<open>What an accepted call tells: the path it took and the session it leaves.\<close>

lemma process_transaction_accepted:
  assumes "process_transaction f db ref ty d es = (Inr tx, db')"
  shows "sum_list (map snd es) = 0"
    and "filter (\<lambda>t. reference_id t = ref) (transactions db) = []"
    and "length (select_for_update db (unique_account_ids es)) = length (unique_account_ids es)"
    and "tx = new_transaction db ref ty d"
    and "post_entries (tx_seq db) (flushed db ref ty d es) es = (None, db')"
proof -
  have all: "sum_list (map snd es) = 0 \<and>
    filter (\<lambda>t. reference_id t = ref) (transactions db) = [] \<and>
    length (select_for_update db (unique_account_ids es)) = length (unique_account_ids es) \<and>
    tx = new_transaction db ref ty d \<and>
    post_entries (tx_seq db) (flushed db ref ty d es) es = (None, db')"
  proof (cases rule: process_transaction_cases[of es f db ref ty d])
    case unbalanced
    then show ?thesis using assms by simp
  next
    case multiple
    then show ?thesis using assms by simp
  next
    case (duplicate x)
    then show ?thesis using assms by simp
  next
    case index_error
    then show ?thesis using assms by simp
  next
    case not_found
    then show ?thesis using assms by simp
  next
    case posted
    obtain r db3 where pe: "post_entries (tx_seq db) (flushed db ref ty d es) es = (r, db3)"
      by (cases "post_entries (tx_seq db) (flushed db ref ty d es) es")
    have "r = None \<and> db3 = db' \<and> tx = new_transaction db ref ty d"
      using posted(4) assms pe by (cases r) auto
    then show ?thesis using posted(1-3) pe by (simp add: scalar_one_or_none_None)
  qed
  show "sum_list (map snd es) = 0"
    and "filter (\<lambda>t. reference_id t = ref) (transactions db) = []"
    and "length (select_for_update db (unique_account_ids es)) = length (unique_account_ids es)"
    and "tx = new_transaction db ref ty d"
    and "post_entries (tx_seq db) (flushed db ref ty d es) es = (None, db')"
    using all by blast+
qed

text \<open>The session a call leaves is one of three.\<close>

lemma process_transaction_session:
  "snd (process_transaction f db ref ty d es) = db \<or>
   snd (process_transaction f db ref ty d es) = locked_session db es \<or>
   snd (process_transaction f db ref ty d es) =
     snd (post_entries (tx_seq db) (flushed db ref ty d es) es)"
proof (cases rule: process_transaction_cases[of es f db ref ty d])
  case posted
  then show ?thesis by (simp split: prod.splits option.splits)
qed simp_all

text \<open>The unfoldings that evaluate a call on a concrete database.\<close>

lemmas ev = process_transaction_def seed_def select_for_update_def exempt_names_def
  set_balance_def Let_def

lemma balances_derived_cong:
  "accounts a = accounts b \<Longrightarrow> postings a = postings b \<Longrightarrow> balances_derived a = balances_derived b"
  by (simp add: balances_derived_def posted_def)

lemma process_transaction_derived:
  assumes "balances_derived db"
  shows "balances_derived (snd (process_transaction f db ref ty d es))"
proof -
  have l: "balances_derived (locked_session db es)"
    using assms balances_derived_cong[of "locked_session db es" db] by simp
  have "balances_derived (flushed db ref ty d es)"
    using assms balances_derived_cong[of "flushed db ref ty d es" db] by simp
  then have p: "balances_derived (snd (post_entries (tx_seq db) (flushed db ref ty d es) es))"
    by (rule post_entries_derived)
  show ?thesis
    using process_transaction_session[of f db ref ty d es] assms l p by auto
qed

lemma process_derived:
  assumes "balances_derived db"
  shows "balances_derived (snd (process f db ref ty d es))"
proof -
  let ?p = "process_transaction f (begin_session db) ref ty d es"
  have b: "balances_derived (begin_session db)"
    using assms balances_derived_cong[of "begin_session db" db] by (simp add: begin_session_def)
  have s: "balances_derived (snd ?p)" by (rule process_transaction_derived[OF b])
  obtain r db' where p: "?p = (r, db')" by (cases ?p)
  show ?thesis
  proof (cases r)
    case (Inl e)
    have "balances_derived (close db db')"
      using assms balances_derived_cong[of "close db db'" db] by (simp add: close_def)
    then show ?thesis using p Inl by (simp add: process_def)
  next
    case (Inr tx)
    have "balances_derived (commit db')"
      using s p balances_derived_cong[of "commit db'" db'] by (simp add: commit_def)
    then show ?thesis using p Inr by (simp add: process_def)
  qed
qed

lemma run_derived: "balances_derived db \<Longrightarrow> balances_derived (run f db calls)"
proof (induction calls arbitrary: db)
  case Nil
  then show ?case by simp
next
  case (Cons c calls)
  obtain ref ty d es where c: "c = (ref, ty, d, es)" by (cases c)
  show ?case unfolding c run.simps
    by (rule Cons.IH[OF process_derived[OF Cons.prems]])
qed

lemma filter_posting_of_same [simp]:
  "filter (\<lambda>p. transaction_id p = t) (map (posting_of t) es) = map (posting_of t) es"
  by (induction es) (auto simp: posting_of_def)

lemma amount_posting_of [simp]: "map amount (map (posting_of t) es) = map snd es"
  by (induction es) (auto simp: posting_of_def)

lemma account_id_posting_of [simp]: "map account_id (map (posting_of t) es) = map fst es"
  by (induction es) (auto simp: posting_of_def)

lemma consistent_fresh_id:
  assumes "consistent db"
  shows "filter (\<lambda>p. transaction_id p = tx_seq db) (postings db) = []"
proof -
  have "\<And>p. p \<in> set (postings db) \<Longrightarrow> transaction_id p \<noteq> tx_seq db"
  proof
    fix p assume p: "p \<in> set (postings db)" and e: "transaction_id p = tx_seq db"
    have "transaction_id p \<in> set (map tx_id (transactions db))"
      using assms p by (simp add: consistent_def list_all_iff)
    then obtain t where "t \<in> set (transactions db)" "tx_id t = tx_seq db"
      using e by auto
    moreover have "\<And>t. t \<in> set (transactions db) \<Longrightarrow> tx_id t < tx_seq db"
      using assms by (simp add: consistent_def list_all_iff)
    ultimately show False by fastforce
  qed
  then show ?thesis by (simp add: filter_empty_conv)
qed

section \<open>Consistent databases\<close>

lemma tables_eq:
  "tables a = tables b \<longleftrightarrow>
   accounts a = accounts b \<and> transactions a = transactions b \<and> postings a = postings b"
  by (simp add: tables_def)

lemma consistent_lookup:
  assumes "consistent db"
  shows "scalar_one_or_none (filter (\<lambda>t. reference_id t = ref) (transactions db)) =
         (if ref \<in> reference_id ` set (transactions db)
          then Inr (Some (the (find (\<lambda>t. reference_id t = ref) (transactions db))))
          else Inr None)"
  using assms lookup_reference[of "transactions db" ref] by (simp add: consistent_def)

lemma consistent_found:
  assumes "consistent db"
  shows "length (select_for_update db (unique_account_ids es)) = length (unique_account_ids es) \<longleftrightarrow>
         fst ` set es \<subseteq> acc_id ` set (accounts db)"
  using assms select_for_update_length[of db "unique_account_ids es"]
  by (simp add: consistent_def)

text \<open>On a consistent database a call ends in one of five ways.\<close>

lemma consistent_cases [consumes 1, case_names unbalanced duplicate not_found rejected accepted]:
  assumes "consistent db"
  obtains
    (unbalanced) "sum_list (map snd es) \<noteq> 0"
      "process_transaction f db ref ty d es = (Inl (ValueError (sum_list (map snd es))), db)"
  | (duplicate) "sum_list (map snd es) = 0" "ref \<in> reference_id ` set (transactions db)"
      "process_transaction f db ref ty d es = (Inl (IdempotencyError ref), db)"
  | (not_found) "sum_list (map snd es) = 0" "ref \<notin> reference_id ` set (transactions db)"
      "fst ` set es - acc_id ` set (accounts db) \<noteq> {}"
      "process_transaction f db ref ty d es =
         (Inl (AccountNotFoundError (f (fst ` set es - acc_id ` set (accounts db)))),
          locked_session db es)"
  | (rejected) i db' where "sum_list (map snd es) = 0"
      "ref \<notin> reference_id ` set (transactions db)"
      "fst ` set es \<subseteq> acc_id ` set (accounts db)" "i \<in> fst ` set es"
      "post_entries (tx_seq db) (flushed db ref ty d es) es = (Some (InsufficientFundsError i), db')"
      "process_transaction f db ref ty d es = (Inl (InsufficientFundsError i), db')"
  | (accepted) db' where "sum_list (map snd es) = 0"
      "ref \<notin> reference_id ` set (transactions db)"
      "fst ` set es \<subseteq> acc_id ` set (accounts db)"
      "post_entries (tx_seq db) (flushed db ref ty d es) es = (None, db')"
      "process_transaction f db ref ty d es = (Inr (new_transaction db ref ty d), db')"
proof (cases rule: process_transaction_cases[of es f db ref ty d])
  case unbalanced
  then show ?thesis using that(1) by blast
next
  case multiple
  then show ?thesis using consistent_lookup[OF assms, of ref] by (simp split: if_splits)
next
  case (duplicate x)
  then have "ref \<in> reference_id ` set (transactions db)"
    using consistent_lookup[OF assms, of ref] by (simp split: if_splits)
  then show ?thesis using duplicate that(2) by blast
next
  case index_error
  then show ?thesis using consistent_found[OF assms, of es] by simp
next
  case not_found
  then have "ref \<notin> reference_id ` set (transactions db)"
    using consistent_lookup[OF assms, of ref] by (simp split: if_splits)
  then show ?thesis using not_found that(3) by blast
next
  case posted
  have fresh: "ref \<notin> reference_id ` set (transactions db)"
    using posted(2) consistent_lookup[OF assms, of ref] by (simp split: if_splits)
  have found: "fst ` set es \<subseteq> acc_id ` set (accounts db)"
    using posted(3) consistent_found[OF assms, of es] by simp
  obtain r db' where pe: "post_entries (tx_seq db) (flushed db ref ty d es) es = (r, db')"
    by (cases "post_entries (tx_seq db) (flushed db ref ty d es) es")
  show ?thesis
  proof (cases r)
    case None
    then have "process_transaction f db ref ty d es = (Inr (new_transaction db ref ty d), db')"
      using posted(4) pe by simp
    then show ?thesis using that(5) posted(1) fresh found pe None by blast
  next
    case (Some e)
    have pt: "process_transaction f db ref ty d es = (Inl e, db')"
      using posted(4) pe Some by simp
    obtain i where i: "i \<in> fst ` set es"
      "(e = KeyError i \<and> i \<notin> acc_id ` set (accounts (flushed db ref ty d es))) \<or>
       (e = InsufficientFundsError i \<and> i \<in> acc_id ` set (accounts (flushed db ref ty d es)))"
      using post_entries_error[OF pe[unfolded Some]] by blast
    then have "e = InsufficientFundsError i" using found by auto
    then show ?thesis using that(4) posted(1) fresh found i(1) pe Some pt by blast
  qed
qed

lemma post_entries_tx_seq_eq:
  "post_entries t db es = (r, db') \<Longrightarrow> tx_seq db' = tx_seq db \<and> transactions db' = transactions db"
  using post_entries_tx_seq[of t db es] post_entries_transactions[of t db es] by simp

lemma consistent_accepted:
  assumes "consistent db" and "process_transaction f db ref ty d es = (Inr tx, db')"
  shows "consistent db'"
proof -
  note acc = process_transaction_accepted[OF assms(2)]
  have found: "fst ` set es \<subseteq> acc_id ` set (accounts db)"
    using acc(3) consistent_found[OF assms(1), of es] by simp
  have tr: "transactions db' = transactions db @ [new_transaction db ref ty d]"
    and sq: "tx_seq db' = tx_seq db + 1"
    using post_entries_tx_seq_eq[OF acc(5)] by simp_all
  have ids: "map acc_id (accounts db') = map acc_id (accounts db)"
    using post_entries_acc_id[of "tx_seq db" "flushed db ref ty d es" es] acc(5) by simp
  have ps: "postings db' = postings db @ map (posting_of (tx_seq db)) es"
    using post_entries_postings_ok[OF acc(5)] by simp
  have fresh: "ref \<notin> reference_id ` set (transactions db)"
    using acc(2) by (auto simp: filter_empty_conv)
  have lt: "\<And>t. t \<in> set (transactions db) \<Longrightarrow> tx_id t < tx_seq db"
    using assms(1) by (simp add: consistent_def list_all_iff)
  then have newid: "tx_seq db \<notin> tx_id ` set (transactions db)" by fastforce
  have c1: "distinct (map acc_id (accounts db'))"
    using assms(1) ids by (simp add: consistent_def)
  have c2: "distinct (map tx_id (transactions db'))"
    using assms(1) tr newid by (simp add: consistent_def)
  have c3: "distinct (map reference_id (transactions db'))"
    using assms(1) tr fresh by (simp add: consistent_def)
  have c4: "list_all (\<lambda>t. tx_id t < tx_seq db') (transactions db')"
    using lt tr sq by (fastforce simp: list_all_iff)
  have c5: "list_all (\<lambda>p. transaction_id p \<in> set (map tx_id (transactions db'))) (postings db')"
    using assms(1) tr ps by (auto simp: consistent_def list_all_iff posting_of_def)
  have "set (map acc_id (accounts db')) = set (map acc_id (accounts db))"
    by (simp only: ids)
  then have c6: "list_all (\<lambda>p. account_id p \<in> set (map acc_id (accounts db'))) (postings db')"
    using assms(1) ps found by (auto simp: consistent_def list_all_iff posting_of_def)
  show ?thesis
    unfolding consistent_def using c1 c2 c3 c4 c5 c6 by blast
qed

lemma consistent_tables:
  "consistent a \<Longrightarrow> tables b = tables a \<Longrightarrow> tx_seq a \<le> tx_seq b \<Longrightarrow> consistent b"
  by (fastforce simp: consistent_def tables_def list_all_iff)

lemma process_transaction_tx_seq: "tx_seq db \<le> tx_seq (snd (process_transaction f db ref ty d es))"
  using process_transaction_session[of f db ref ty d es]
    post_entries_tx_seq[of "tx_seq db" "flushed db ref ty d es" es]
  by auto

lemma process_failed:
  "fst (process f db ref ty d es) = Inl e \<Longrightarrow> tables (snd (process f db ref ty d es)) = tables db"
  by (auto simp: process_def close_def tables_def split: prod.splits sum.splits)

lemma process_result:
  "fst (process f db ref ty d es) = fst (process_transaction f (begin_session db) ref ty d es)"
  by (auto simp: process_def split: prod.splits sum.splits)

lemma process_committed:
  "process_transaction f (begin_session db) ref ty d es = (Inr tx, db') \<Longrightarrow>
   process f db ref ty d es = (Inr tx, commit db')"
  by (simp add: process_def)

lemma consistent_begin [simp]: "consistent (begin_session db) = consistent db"
  by (simp add: consistent_def begin_session_def)

lemma process_consistent:
  assumes "consistent db"
  shows "consistent (snd (process f db ref ty d es))"
proof -
  let ?p = "process_transaction f (begin_session db) ref ty d es"
  obtain r db' where p: "?p = (r, db')" by (cases ?p)
  have b: "consistent (begin_session db)" using assms by simp
  show ?thesis
  proof (cases r)
    case (Inl e)
    have "tx_seq (begin_session db) \<le> tx_seq db'"
      using process_transaction_tx_seq[of "begin_session db" f ref ty d es] p by simp
    then have "tx_seq db \<le> tx_seq (close db db')"
      by (simp add: begin_session_def close_def)
    moreover have "tables (close db db') = tables db" by (simp add: close_def tables_def)
    ultimately have "consistent (close db db')" using consistent_tables[OF assms] by blast
    then show ?thesis using p Inl by (simp add: process_def)
  next
    case (Inr tx)
    have "consistent db'" using consistent_accepted[OF b] p Inr by simp
    then have "consistent (commit db')"
      using consistent_tables[of db' "commit db'"] by (simp add: commit_def tables_def)
    then show ?thesis using p Inr by (simp add: process_def)
  qed
qed

lemma run_consistent: "consistent db \<Longrightarrow> consistent (run f db calls)"
proof (induction calls arbitrary: db)
  case Nil
  then show ?case by simp
next
  case (Cons c calls)
  obtain ref ty d es where c: "c = (ref, ty, d, es)" by (cases c)
  show ?case unfolding c run.simps
    by (rule Cons.IH[OF process_consistent[OF Cons.prems]])
qed

lemma try_process_failed:
  "fst (try_process f db ref ty d es) = Inl x \<Longrightarrow>
   tables (snd (try_process f db ref ty d es)) = tables db"
proof -
  assume a: "fst (try_process f db ref ty d es) = Inl x"
  obtain r db' where p: "process f db ref ty d es = (r, db')" by (cases "process f db ref ty d es")
  show ?thesis
  proof (cases r)
    case (Inl e)
    then have "tables db' = tables db" using process_failed[of f db ref ty d es e] p by simp
    then show ?thesis using p Inl by (simp add: try_process_def)
  next
    case (Inr tx)
    then show ?thesis using a p by (simp add: try_process_def)
  qed
qed

lemma spend_failed:
  "fst (spend f db r) = Inl x \<Longrightarrow> tables (snd (spend f db r)) = tables db"
  unfolding spend_def
  by (auto split: sum.splits intro: try_process_failed)

lemma top_up_failed:
  "fst (top_up f db r) = Inl x \<Longrightarrow> tables (snd (top_up f db r)) = tables db"
  unfolding top_up_def
  by (auto split: sum.splits intro: try_process_failed)

lemma bonus_failed:
  "fst (bonus f db r) = Inl x \<Longrightarrow> tables (snd (bonus f db r)) = tables db"
  unfolding bonus_def
  by (auto split: sum.splits intro: try_process_failed)

lemma consistent_errors:
  assumes "consistent db" and "process_transaction f db ref ty d es = (Inl e, db')"
  shows "(e = ValueError (sum_list (map snd es)) \<and> db' = db) \<or>
         (e = IdempotencyError ref \<and> db' = db) \<or>
         (e = AccountNotFoundError (f (fst ` set es - acc_id ` set (accounts db))) \<and>
            db' = locked_session db es) \<or>
         (\<exists>i. e = InsufficientFundsError i)"
  using assms(1)
proof (cases rule: consistent_cases[of db es f ref ty d])
  case unbalanced
  then show ?thesis using assms(2) by simp
next
  case duplicate
  then show ?thesis using assms(2) by simp
next
  case not_found
  then show ?thesis using assms(2) by simp
next
  case (rejected i db'')
  then show ?thesis using assms(2) by simp
next
  case (accepted db'')
  then show ?thesis using assms(2) by simp
qed

section \<open>The check the loop applies\<close>

lemma entries_ok_iff: "entries_ok db es \<longleftrightarrow> (\<forall>k<length es. entry_ok db es k)"
  by (auto simp: entries_ok_def list_all_iff)

lemma entry_ok_cong: "accounts a = accounts b \<Longrightarrow> entry_ok a es k = entry_ok b es k"
  by (simp add: entry_ok_def account_of_def)

lemma entries_ok_cong: "accounts a = accounts b \<Longrightarrow> entries_ok a es = entries_ok b es"
  by (simp add: entries_ok_iff entry_ok_cong[of a b])

lemma account_of_cong: "accounts a = accounts b \<Longrightarrow> account_of a i = account_of b i"
  by (simp add: account_of_def)

lemma entry_ok_0:
  "entry_ok db ((i, m) # es) 0 \<longleftrightarrow>
   (\<exists>a. account_of db i = Some a \<and> (name a \<in> set exempt_names \<or> 0 \<le> balance a + m))"
  by (auto simp: entry_ok_def split: option.splits)

lemma entry_ok_Suc:
  assumes "find (\<lambda>a. acc_id a = i) (accounts db) = Some a" and "k < length es"
  shows "entry_ok db ((i, m) # es) (Suc k) \<longleftrightarrow>
         entry_ok (db\<lparr>accounts := set_balance i (balance a + m) (accounts db),
               postings := postings db @
                 [\<lparr>transaction_id = t, account_id = acc_id a, amount = m\<rparr>]\<rparr>) es k"
proof -
  let ?db1 = "db\<lparr>accounts := set_balance i (balance a + m) (accounts db),
               postings := postings db @
                 [\<lparr>transaction_id = t, account_id = acc_id a, amount = m\<rparr>]\<rparr>"
  let ?j = "fst (es ! k)"
  have one: "account_of ?db1 ?j =
        map_option (\<lambda>x. if acc_id x = i then x\<lparr>balance := balance a + m\<rparr> else x) (account_of db ?j)"
    by (simp add: account_of_def find_set_balance)
  show ?thesis
  proof (cases "account_of db ?j")
    case None
    then show ?thesis using one by (simp add: entry_ok_def)
  next
    case (Some x)
    then have xj: "acc_id x = ?j" unfolding account_of_def using find_acc_id by blast
    show ?thesis
    proof (cases "?j = i")
      case True
      then have "x = a" using Some assms(1) by (simp add: account_of_def)
      then show ?thesis using one Some True xj
        by (simp add: entry_ok_def ac_simps)
    next
      case False
      then show ?thesis using one Some xj by (auto simp: entry_ok_def)
    qed
  qed
qed

lemma all_less_Suc: "(\<forall>k<Suc n. P k) \<longleftrightarrow> P 0 \<and> (\<forall>k<n. P (Suc k))"
  by (auto simp: less_Suc_eq_0_disj)

lemma post_entries_ok_iff:
  "(\<exists>db'. post_entries t db es = (None, db')) \<longleftrightarrow> entries_ok db es"
proof (induction es arbitrary: db)
  case Nil
  then show ?case by (simp add: entries_ok_iff)
next
  case (Cons e es)
  obtain i m where e: "e = (i, m)" by (cases e)
  have split: "entries_ok db (e # es) \<longleftrightarrow>
      entry_ok db ((i, m) # es) 0 \<and> (\<forall>k<length es. entry_ok db ((i, m) # es) (Suc k))"
    unfolding entries_ok_iff e using all_less_Suc[of "length es" "entry_ok db ((i, m) # es)"]
    by simp
  show ?case
  proof (cases rule: post_entries_Cons_cases[of i db t m es])
    case missing
    then have "\<not> entry_ok db ((i, m) # es) 0"
      by (simp add: entry_ok_0 account_of_def)
    then show ?thesis using missing(2) split by (simp add: e)
  next
    case (reject a)
    then have "\<not> entry_ok db ((i, m) # es) 0"
      by (simp add: entry_ok_0 account_of_def)
    then show ?thesis using reject(4) split by (simp add: e)
  next
    case (step a)
    let ?db1 = "db\<lparr>accounts := set_balance i (balance a + m) (accounts db),
               postings := postings db @
                 [\<lparr>transaction_id = t, account_id = acc_id a, amount = m\<rparr>]\<rparr>"
    have zero: "entry_ok db ((i, m) # es) 0"
      using step(1,2) by (auto simp: entry_ok_0 account_of_def)
    have "(\<exists>db'. post_entries t db (e # es) = (None, db')) \<longleftrightarrow> entries_ok ?db1 es"
      unfolding e step(3) by (rule Cons.IH)
    also have "\<dots> \<longleftrightarrow> (\<forall>k<length es. entry_ok db ((i, m) # es) (Suc k))"
      unfolding entries_ok_iff using entry_ok_Suc[OF step(1), of _ es m t] by simp
    finally show ?thesis using split zero by simp
  qed
qed

lemma entries_ok_found:
  assumes "entries_ok db es"
  shows "fst ` set es \<subseteq> acc_id ` set (accounts db)"
proof
  fix i assume "i \<in> fst ` set es"
  then obtain k where k: "k < length es" "fst (es ! k) = i"
    by (metis (no_types, lifting) image_iff in_set_conv_nth)
  then have "entry_ok db es k" using assms by (simp add: entries_ok_iff)
  then obtain a where "account_of db i = Some a"
    using k(2) by (auto simp: entry_ok_def split: option.splits)
  then show "i \<in> acc_id ` set (accounts db)"
    unfolding account_of_def using find_acc_id by (metis imageI)
qed

lemma accepted_iff_entries_ok:
  assumes "consistent db" and "sum_list (map snd es) = 0"
    and "ref \<notin> reference_id ` set (transactions db)"
  shows "(\<exists>tx db'. process_transaction f db ref ty d es = (Inr tx, db')) \<longleftrightarrow> entries_ok db es"
proof
  assume "\<exists>tx db'. process_transaction f db ref ty d es = (Inr tx, db')"
  then obtain tx db' where a: "process_transaction f db ref ty d es = (Inr tx, db')" by blast
  have "post_entries (tx_seq db) (flushed db ref ty d es) es = (None, db')"
    by (rule process_transaction_accepted(5)[OF a])
  then have "entries_ok (flushed db ref ty d es) es"
    using post_entries_ok_iff[of "tx_seq db" "flushed db ref ty d es" es] by blast
  then show "entries_ok db es"
    using entries_ok_cong[of "flushed db ref ty d es" db es] by simp
next
  assume ok: "entries_ok db es"
  then have "entries_ok (flushed db ref ty d es) es"
    using entries_ok_cong[of "flushed db ref ty d es" db es] by simp
  then obtain db' where pe: "post_entries (tx_seq db) (flushed db ref ty d es) es = (None, db')"
    using post_entries_ok_iff[of "tx_seq db" "flushed db ref ty d es" es] by blast
  have found: "fst ` set es \<subseteq> acc_id ` set (accounts db)" by (rule entries_ok_found[OF ok])
  from assms(1) show "\<exists>tx db'. process_transaction f db ref ty d es = (Inr tx, db')"
  proof (cases rule: consistent_cases[of db es f ref ty d])
    case unbalanced
    then show ?thesis using assms(2) by simp
  next
    case duplicate
    then show ?thesis using assms(3) by simp
  next
    case not_found
    then show ?thesis using found by auto
  next
    case (rejected i db'')
    then show ?thesis using pe by simp
  next
    case (accepted db'')
    then show ?thesis by blast
  qed
qed

lemma net_ok_iff:
  "net_ok db es \<longleftrightarrow>
   (\<forall>i \<in> fst ` set es. \<exists>a. account_of db i = Some a \<and>
      (name a \<in> set exempt_names \<or> 0 \<le> balance a + net es i))"
  by (auto simp: net_ok_def list_all_iff split: option.splits)

lemma net_append: "net (xs @ ys) i = net xs i + net ys i"
  by (simp add: net_def)

lemma net_take_distinct:
  assumes "distinct (map fst es)" and "k < length es"
  shows "net (take (Suc k) es) (fst (es ! k)) = net es (fst (es ! k))"
proof -
  have "distinct (map fst (take (Suc k) es) @ map fst (drop (Suc k) es))"
    using assms(1) by (metis append_take_drop_id map_append)
  then have dj: "set (map fst (take (Suc k) es)) \<inter> set (map fst (drop (Suc k) es)) = {}"
    by simp
  have "es ! k \<in> set (take (Suc k) es)"
    using assms(2) by (simp add: in_set_conv_nth) (metis lessI min_less_iff_conj nth_take)
  then have "fst (es ! k) \<in> set (map fst (take (Suc k) es))" by simp
  then have "fst (es ! k) \<notin> fst ` set (drop (Suc k) es)" using dj by auto
  then have "net (drop (Suc k) es) (fst (es ! k)) = 0" by (rule net_unreferenced)
  moreover have "net es (fst (es ! k)) =
      net (take (Suc k) es) (fst (es ! k)) + net (drop (Suc k) es) (fst (es ! k))"
    using net_append[of "take (Suc k) es" "drop (Suc k) es"] by simp
  ultimately show ?thesis by simp
qed

lemma entries_ok_net_ok:
  assumes "entries_ok db es"
  shows "net_ok db es"
  unfolding net_ok_iff
proof
  fix i assume i: "i \<in> fst ` set es"
  obtain db' where pe: "post_entries 0 db es = (None, db')"
    using assms post_entries_ok_iff[of 0 db es] by blast
  have "i \<in> acc_id ` set (accounts db)" using entries_ok_found[OF assms] i by blast
  then obtain a where a: "account_of db i = Some a"
    unfolding account_of_def using find_acc_id_None[of i "accounts db"] by (cases "find (\<lambda>a. acc_id a = i) (accounts db)") auto
  have "account_of db' i = Some (a\<lparr>balance := balance a + net es i\<rparr>)"
    using account_of_post_entries[OF pe, of i] a by simp
  then have "name a \<in> set exempt_names \<or> 0 \<le> balance a + net es i"
    using post_entries_floor[OF pe i] by fastforce
  then show "\<exists>a. account_of db i = Some a \<and>
      (name a \<in> set exempt_names \<or> 0 \<le> balance a + net es i)"
    using a by blast
qed

lemma net_ok_entries_ok:
  assumes "distinct (map fst es)" and "net_ok db es"
  shows "entries_ok db es"
  unfolding entries_ok_iff
proof (intro allI impI)
  fix k assume k: "k < length es"
  then have "fst (es ! k) \<in> fst ` set es" by simp
  then obtain a where "account_of db (fst (es ! k)) = Some a"
    "name a \<in> set exempt_names \<or> 0 \<le> balance a + net es (fst (es ! k))"
    using assms(2) unfolding net_ok_iff by blast
  then show "entry_ok db es k"
    using net_take_distinct[OF assms(1) k] by (simp add: entry_ok_def)
qed

lemma post_entries_first_failure:
  "post_entries t db es = (Some e, db') \<Longrightarrow>
   \<exists>k<length es. (\<forall>k'<k. entry_ok db es k') \<and> \<not> entry_ok db es k \<and>
     (e = InsufficientFundsError (fst (es ! k)) \<or> e = KeyError (fst (es ! k)))"
proof (induction es arbitrary: db)
  case Nil
  then show ?case by simp
next
  case (Cons x es)
  obtain i m where x: "x = (i, m)" by (cases x)
  show ?case
  proof (cases rule: post_entries_Cons_cases[of i db t m es])
    case missing
    then have "\<not> entry_ok db ((i, m) # es) 0" by (simp add: entry_ok_0 account_of_def)
    moreover have "e = KeyError i" using missing(2) Cons.prems by (simp add: x)
    ultimately show ?thesis by (intro exI[of _ 0]) (simp add: x)
  next
    case (reject a)
    then have "\<not> entry_ok db ((i, m) # es) 0" by (simp add: entry_ok_0 account_of_def)
    moreover have "e = InsufficientFundsError i" using reject(4) Cons.prems by (simp add: x)
    ultimately show ?thesis by (intro exI[of _ 0]) (simp add: x)
  next
    case (step a)
    let ?db1 = "db\<lparr>accounts := set_balance i (balance a + m) (accounts db),
               postings := postings db @
                 [\<lparr>transaction_id = t, account_id = acc_id a, amount = m\<rparr>]\<rparr>"
    have zero: "entry_ok db ((i, m) # es) 0"
      using step(1,2) by (auto simp: entry_ok_0 account_of_def)
    have "post_entries t ?db1 es = (Some e, db')" using Cons.prems step(3) by (simp add: x)
    from Cons.IH[OF this] obtain k where k: "k < length es"
      "\<forall>k'<k. entry_ok ?db1 es k'" "\<not> entry_ok ?db1 es k"
      "e = InsufficientFundsError (fst (es ! k)) \<or> e = KeyError (fst (es ! k))"
      by blast
    have tr: "\<And>j. j < length es \<Longrightarrow> entry_ok db ((i, m) # es) (Suc j) = entry_ok ?db1 es j"
      using entry_ok_Suc[OF step(1), of _ es m t] by simp
    have before: "\<forall>k'<Suc k. entry_ok db ((i, m) # es) k'"
    proof (intro allI impI)
      fix k' assume "k' < Suc k"
      then show "entry_ok db ((i, m) # es) k'"
        using zero k(1,2) tr by (cases k') auto
    qed
    have at: "\<not> entry_ok db ((i, m) # es) (Suc k)" using k(1,3) tr by simp
    show ?thesis
      using k(1,4) before at by (intro exI[of _ "Suc k"]) (simp add: x)
  qed
qed

section \<open>The floor\<close>

lemma accepted_balance:
  assumes "process_transaction f db ref ty d es = (Inr tx, db')"
    and "account_of db i = Some a" and "name a \<notin> set exempt_names"
  shows "account_of db' i = Some (a\<lparr>balance := balance a + net es i\<rparr>)"
    and "i \<in> fst ` set es \<or> 0 \<le> balance a \<Longrightarrow> 0 \<le> balance a + net es i"
proof -
  have pe: "post_entries (tx_seq db) (flushed db ref ty d es) es = (None, db')"
    by (rule process_transaction_accepted(5)[OF assms(1)])
  have "account_of (flushed db ref ty d es) i = Some a"
    using assms(2) account_of_cong[of "flushed db ref ty d es" db i] by simp
  then show after: "account_of db' i = Some (a\<lparr>balance := balance a + net es i\<rparr>)"
    using account_of_post_entries[OF pe, of i] by simp
  assume h: "i \<in> fst ` set es \<or> 0 \<le> balance a"
  show "0 \<le> balance a + net es i"
  proof (cases "i \<in> fst ` set es")
    case True
    then show ?thesis using post_entries_floor[OF pe True after] assms(3) by simp
  next
    case False
    then show ?thesis using h net_unreferenced[OF False] by simp
  qed
qed

lemma process_floor:
  assumes "account_of db i = Some a" and "name a \<notin> set exempt_names" and "0 \<le> balance a"
  shows "\<exists>a'. account_of (snd (process f db ref ty d es)) i = Some a' \<and> name a' = name a \<and>
           0 \<le> balance a'"
proof -
  let ?p = "process_transaction f (begin_session db) ref ty d es"
  obtain r db' where p: "?p = (r, db')" by (cases ?p)
  have b: "account_of (begin_session db) i = Some a"
    using assms(1) account_of_cong[of "begin_session db" db i] by (simp add: begin_session_def)
  show ?thesis
  proof (cases r)
    case (Inl e)
    have "account_of (close db db') i = Some a"
      using assms(1) account_of_cong[of "close db db'" db i] by (simp add: close_def)
    then show ?thesis using p Inl assms(3) by (simp add: process_def)
  next
    case (Inr tx)
    have a1: "account_of db' i = Some (a\<lparr>balance := balance a + net es i\<rparr>)"
      and a2: "0 \<le> balance a + net es i"
      using accepted_balance[OF p[unfolded Inr] b assms(2)] assms(3) by blast+
    have "account_of (commit db') i = Some (a\<lparr>balance := balance a + net es i\<rparr>)"
      using a1 account_of_cong[of "commit db'" db' i] by (simp add: commit_def)
    then show ?thesis using p Inr a2 by (simp add: process_def)
  qed
qed

lemma run_floor:
  "account_of db i = Some a \<Longrightarrow> name a \<notin> set exempt_names \<Longrightarrow> 0 \<le> balance a \<Longrightarrow>
   \<exists>a'. account_of (run f db calls) i = Some a' \<and> name a' = name a \<and> 0 \<le> balance a'"
proof (induction calls arbitrary: db a)
  case Nil
  then show ?case by simp
next
  case (Cons c calls)
  obtain ref ty d es where c: "c = (ref, ty, d, es)" by (cases c)
  obtain a1 where a1: "account_of (snd (process f db ref ty d es)) i = Some a1"
    "name a1 = name a" "0 \<le> balance a1"
    using process_floor[OF Cons.prems, of f ref ty d es] by blast
  have "\<exists>a'. account_of (run f (snd (process f db ref ty d es)) calls) i = Some a' \<and>
      name a' = name a1 \<and> 0 \<le> balance a'"
    using Cons.IH[OF a1(1) _ a1(3)] a1(2) Cons.prems(2) by simp
  then show ?case using a1(2) by (simp add: c)
qed

section \<open>The claims\<close>

text \<open>
  C8. Entries whose amounts do not sum to zero make \<open>process_transaction\<close> raise
  \<open>ValueError\<close> with the observed sum. The session comes back as it was, whatever it
  holds: no row was read, no lock was taken, nothing was written. The entries
  \<open>[(a, 10), (b, -5)]\<close> fail with the sum 5.
\<close>

theorem unbalanced_entries_fail_first:
  "(sum_list (map snd es) \<noteq> 0 \<longrightarrow>
      process_transaction f db ref ty d es = (Inl (ValueError (sum_list (map snd es))), db)) \<and>
   process_transaction f db ref ty d [(a, 10), (b, - 5)] = (Inl (ValueError 5), db)"
  by (simp add: process_transaction_def)

theorem unbalanced_entries_fail_first_witness:
  "sum_list (map snd [(2 :: int, 10 :: int), (3, - 5)]) \<noteq> 0 \<and>
   process_transaction Min seed ''r4'' TOPUP ''top-up'' [(2, 10), (3, - 5)] =
     (Inl (ValueError 5), seed)"
  using unbalanced_entries_fail_first[of "[(2, 10), (3, - 5)]" Min seed "''r4''" TOPUP "''top-up''"]
  by simp

text \<open>
  C7, as the specification words it, fails: the zero-sum check is step 1 of the code
  and the idempotency check step 2. A call that repeats the reference id of the genesis
  transaction with entries that sum to 5 raises \<open>ValueError\<close>, not \<open>IdempotencyError\<close>.
\<close>

theorem duplicate_precedence_counterexample:
  "''genesis_001'' \<in> reference_id ` set (transactions seed) \<and>
   fst (process_transaction Min seed ''genesis_001'' TOPUP ''again'' [(2, 10), (3, - 5)]) =
     Inl (ValueError 5) \<and>
   fst (process_transaction Min seed ''genesis_001'' TOPUP ''again'' [(2, 10), (3, - 5)]) \<noteq>
     Inl (IdempotencyError ''genesis_001'')"
  by (simp add: process_transaction_def seed_def)

text \<open>
  C7, amended. For a call whose reference id names an existing transaction: when its
  entries sum to zero it fails with \<open>IdempotencyError\<close> of that reference id, and when
  they do not it fails with \<open>ValueError\<close> of the sum; either way the session is as it was.
\<close>

theorem zero_sum_check_precedes_idempotency:
  assumes "distinct (map reference_id (transactions db))"
    and "ref \<in> reference_id ` set (transactions db)"
  shows "process_transaction f db ref ty d es =
          (if sum_list (map snd es) = 0 then (Inl (IdempotencyError ref), db)
           else (Inl (ValueError (sum_list (map snd es))), db))"
proof (cases rule: process_transaction_cases[of es f db ref ty d])
  case unbalanced
  then show ?thesis by simp
next
  case multiple
  then show ?thesis using lookup_reference[OF assms(1), of ref] assms(2) by simp
next
  case (duplicate x)
  then show ?thesis by simp
next
  case index_error
  then show ?thesis using lookup_reference[OF assms(1), of ref] assms(2) by simp
next
  case not_found
  then show ?thesis using lookup_reference[OF assms(1), of ref] assms(2) by simp
next
  case posted
  then show ?thesis using lookup_reference[OF assms(1), of ref] assms(2) by simp
qed

theorem zero_sum_check_precedes_idempotency_witness:
  "distinct (map reference_id (transactions seed)) \<and>
   ''genesis_001'' \<in> reference_id ` set (transactions seed) \<and>
   process_transaction Min seed ''genesis_001'' TOPUP ''again'' [(2, 10), (3, - 10)] =
     (Inl (IdempotencyError ''genesis_001''), seed) \<and>
   process_transaction Min seed ''genesis_001'' TOPUP ''again'' [(2, 10), (3, - 5)] =
     (Inl (ValueError 5), seed)"
proof -
  have d: "distinct (map reference_id (transactions seed))" by (simp add: seed_def)
  have r: "''genesis_001'' \<in> reference_id ` set (transactions seed)" by (simp add: seed_def)
  show ?thesis
    using d r
      zero_sum_check_precedes_idempotency[OF d r, of Min TOPUP "''again''" "[(2, 10), (3, - 10)]"]
      zero_sum_check_precedes_idempotency[OF d r, of Min TOPUP "''again''" "[(2, 10), (3, - 5)]"]
    by simp
qed

text \<open>
  C1. When a call of \<open>process_transaction\<close> has been accepted, the same call again (same
  reference id, same entries) fails with \<open>IdempotencyError\<close> of that reference id and
  returns the session it was given: no balance moves a second time. The same holds in
  every later database state that still holds a transaction of that reference id, the
  reference id being unique there.
\<close>

theorem repeated_call_fails_as_duplicate:
  assumes "process_transaction f db ref ty d es = (Inr tx, db1)"
  shows "process_transaction f db1 ref ty' d' es = (Inl (IdempotencyError ref), db1) \<and>
         (distinct (map reference_id (transactions db2)) \<and>
          ref \<in> reference_id ` set (transactions db2) \<longrightarrow>
            process_transaction f db2 ref ty' d' es = (Inl (IdempotencyError ref), db2))"
proof
  note acc = process_transaction_accepted[OF assms]
  have "transactions db1 = transactions db @ [tx]"
    using post_entries_transactions[of "tx_seq db" "flushed db ref ty d es" es] acc(4,5) by simp
  then have "filter (\<lambda>t. reference_id t = ref) (transactions db1) = [tx]"
    using acc(2,4) by simp
  then have "scalar_one_or_none (filter (\<lambda>t. reference_id t = ref) (transactions db1)) = Inr (Some tx)"
    by simp
  then show "process_transaction f db1 ref ty' d' es = (Inl (IdempotencyError ref), db1)"
    using acc(1) by (rule process_transaction_duplicate[rotated])
next
  show "distinct (map reference_id (transactions db2)) \<and>
          ref \<in> reference_id ` set (transactions db2) \<longrightarrow>
            process_transaction f db2 ref ty' d' es = (Inl (IdempotencyError ref), db2)"
  proof
    assume h: "distinct (map reference_id (transactions db2)) \<and>
          ref \<in> reference_id ` set (transactions db2)"
    have "sum_list (map snd es) = 0" by (rule process_transaction_accepted(1)[OF assms])
    moreover have "scalar_one_or_none (filter (\<lambda>t. reference_id t = ref) (transactions db2)) =
        Inr (Some (the (find (\<lambda>t. reference_id t = ref) (transactions db2))))"
      using lookup_reference[of "transactions db2" ref] h by simp
    ultimately show "process_transaction f db2 ref ty' d' es = (Inl (IdempotencyError ref), db2)"
      by (rule process_transaction_duplicate)
  qed
qed

theorem repeated_call_fails_as_duplicate_witness:
  "fst (process_transaction Min seed ''r1'' TOPUP ''Wallet Top-up'' [(2, - 100), (3, 100)]) =
     Inr \<lparr>tx_id = 4, reference_id = ''r1'', tx_type = TOPUP, description = ''Wallet Top-up''\<rparr> \<and>
   map balance (accounts (snd (process_transaction Min seed ''r1'' TOPUP ''Wallet Top-up''
     [(2, - 100), (3, 100)]))) = [- 1000000000, 999999750, 200, 50] \<and>
   process_transaction Min
     (snd (process_transaction Min seed ''r1'' TOPUP ''Wallet Top-up'' [(2, - 100), (3, 100)]))
     ''r1'' TOPUP ''Wallet Top-up'' [(2, - 100), (3, 100)] =
       (Inl (IdempotencyError ''r1''),
        snd (process_transaction Min seed ''r1'' TOPUP ''Wallet Top-up'' [(2, - 100), (3, 100)])) \<and>
   distinct (map reference_id (transactions (commit (snd (process_transaction Min seed ''r1'' TOPUP
     ''Wallet Top-up'' [(2, - 100), (3, 100)]))))) \<and>
   ''r1'' \<in> reference_id ` set (transactions (commit (snd (process_transaction Min seed ''r1'' TOPUP
     ''Wallet Top-up'' [(2, - 100), (3, 100)])))) \<and>
   process_transaction Min
     (commit (snd (process_transaction Min seed ''r1'' TOPUP ''Wallet Top-up'' [(2, - 100), (3, 100)])))
     ''r1'' TOPUP ''Wallet Top-up'' [(2, - 100), (3, 100)] =
       (Inl (IdempotencyError ''r1''),
        commit (snd (process_transaction Min seed ''r1'' TOPUP ''Wallet Top-up'' [(2, - 100), (3, 100)])))"
proof -
  let ?p = "process_transaction Min seed ''r1'' TOPUP ''Wallet Top-up'' [(2, - 100), (3, 100)]"
  let ?tx = "\<lparr>tx_id = 4, reference_id = ''r1'', tx_type = TOPUP, description = ''Wallet Top-up''\<rparr>"
  have f: "fst ?p = Inr ?tx" by (simp add: ev)
  have b: "map balance (accounts (snd ?p)) = [- 1000000000, 999999750, 200, 50]"
    by (simp add: ev)
  have t: "map reference_id (transactions (commit (snd ?p))) =
      [''genesis_001'', ''seed_alice_001'', ''seed_bob_001'', ''r1'']"
    by (simp add: ev commit_def)
  have d: "distinct (map reference_id (transactions (commit (snd ?p))))"
    unfolding t by simp
  have "''r1'' \<in> set (map reference_id (transactions (commit (snd ?p))))"
    unfolding t by simp
  then have r: "''r1'' \<in> reference_id ` set (transactions (commit (snd ?p)))"
    by (simp only: set_map)
  have first: "?p = (Inr ?tx, snd ?p)" using f by (simp add: prod_eq_iff)
  note th = repeated_call_fails_as_duplicate[OF first, of TOPUP "''Wallet Top-up''" "commit (snd ?p)"]
  note c1 = conjunct1[OF th]
  note c2 = mp[OF conjunct2[OF th] conjI[OF d r]]
  show ?thesis
    by (intro conjI) (rule f b c1 d r c2)+
qed

text \<open>
  C10. Whatever a call of \<open>process_transaction\<close> does, accepted or not, the account rows
  it leaves have the versions they had: every column but the balance is as before, and
  the rows of accounts no entry names are as before altogether.
\<close>

theorem version_is_never_written:
  "map version (accounts (snd (process_transaction f db ref ty d es))) = map version (accounts db) \<and>
   map (\<lambda>a. a\<lparr>balance := 0\<rparr>) (accounts (snd (process_transaction f db ref ty d es))) =
     map (\<lambda>a. a\<lparr>balance := 0\<rparr>) (accounts db) \<and>
   filter (\<lambda>a. acc_id a \<notin> fst ` set es) (accounts (snd (process_transaction f db ref ty d es))) =
     filter (\<lambda>a. acc_id a \<notin> fst ` set es) (accounts db)"
proof -
  let ?db' = "snd (process_transaction f db ref ty d es)"
  have fields: "map (\<lambda>a. a\<lparr>balance := 0\<rparr>) (accounts ?db') = map (\<lambda>a. a\<lparr>balance := 0\<rparr>) (accounts db)"
    using process_transaction_session[of f db ref ty d es]
      post_entries_fields[of "tx_seq db" "flushed db ref ty d es" es]
    by auto
  have "map version (map (\<lambda>a. a\<lparr>balance := 0\<rparr>) (accounts ?db')) =
        map version (map (\<lambda>a. a\<lparr>balance := 0\<rparr>) (accounts db))"
    by (simp only: fields)
  then have vers: "map version (accounts ?db') = map version (accounts db)"
    by (simp add: o_def)
  have rest: "filter (\<lambda>a. acc_id a \<notin> fst ` set es) (accounts ?db') =
     filter (\<lambda>a. acc_id a \<notin> fst ` set es) (accounts db)"
    using process_transaction_session[of f db ref ty d es]
      post_entries_untouched[of es "tx_seq db" "flushed db ref ty d es"]
    by auto
  show ?thesis using fields vers rest by blast
qed

text \<open>
  C4. Balance derivation: in a database where every account's stored balance is the sum
  of the amounts of the postings that reference it, it is so again after a call of
  \<open>process_transaction\<close> (accepted or not), after the unit of work around it has
  committed or rolled back, and after any sequence of such calls. The seeded database
  is such a state.
\<close>

theorem balance_derivation_preserved:
  assumes "balances_derived db"
  shows "balances_derived (snd (process_transaction f db ref ty d es)) \<and>
         balances_derived (snd (process f db ref ty d es)) \<and>
         balances_derived (run f db calls)"
  using process_transaction_derived[OF assms] process_derived[OF assms] run_derived[OF assms]
  by blast

theorem balance_derivation_preserved_witness:
  "balances_derived seed \<and>
   balances_derived (snd (process_transaction Min seed ''r1'' TOPUP ''Wallet Top-up''
     [(2, - 100), (3, 100)])) \<and>
   balances_derived (snd (process Min seed ''r1'' TOPUP ''Wallet Top-up'' [(2, - 100), (3, 100)])) \<and>
   balances_derived (run Min seed
     [(''r1'', TOPUP, ''Wallet Top-up'', [(2, - 100), (3, 100)]),
      (''r2'', PURCHASE, ''Purchase Item'', [(4, - 80), (2, 80)]),
      (''r1'', TOPUP, ''Wallet Top-up'', [(2, - 100), (3, 100)])]) \<and>
   map balance (accounts (run Min seed
     [(''r1'', TOPUP, ''Wallet Top-up'', [(2, - 100), (3, 100)]),
      (''r2'', PURCHASE, ''Purchase Item'', [(4, - 80), (2, 80)]),
      (''r1'', TOPUP, ''Wallet Top-up'', [(2, - 100), (3, 100)])])) =
     [- 1000000000, 999999750, 200, 50]"
proof -
  have s: "balances_derived seed"
    by (simp add: balances_derived_def posted_def seed_def)
  note th = balance_derivation_preserved[OF s, of Min "''r1''" TOPUP "''Wallet Top-up''"
      "[(2, - 100), (3, 100)]"
      "[(''r1'', TOPUP, ''Wallet Top-up'', [(2, - 100), (3, 100)]),
      (''r2'', PURCHASE, ''Purchase Item'', [(4, - 80), (2, 80)]),
      (''r1'', TOPUP, ''Wallet Top-up'', [(2, - 100), (3, 100)])]"]
  have b: "map balance (accounts (run Min seed
     [(''r1'', TOPUP, ''Wallet Top-up'', [(2, - 100), (3, 100)]),
      (''r2'', PURCHASE, ''Purchase Item'', [(4, - 80), (2, 80)]),
      (''r1'', TOPUP, ''Wallet Top-up'', [(2, - 100), (3, 100)])])) =
     [- 1000000000, 999999750, 200, 50]"
    by (simp add: ev process_def begin_session_def commit_def close_def)
  show ?thesis
    by (intro conjI) (rule s conjunct1[OF th] conjunct1[OF conjunct2[OF th]]
        conjunct2[OF conjunct2[OF th]] b)+
qed

text \<open>
  C3. Zero sum: when \<open>process_transaction\<close> accepts a call on a database that meets the
  schema's constraints, the postings that belong to the transaction it returns are the
  postings of the call's entries, one for one, and their amounts sum to zero.
\<close>

theorem accepted_postings_sum_to_zero:
  assumes "consistent db" and "process_transaction f db ref ty d es = (Inr tx, db')"
  shows "sum_list (map amount (postings_of db' (tx_id tx))) = 0 \<and>
         postings_of db' (tx_id tx) = map (posting_of (tx_id tx)) es \<and>
         tx \<in> set (transactions db')"
proof -
  note acc = process_transaction_accepted[OF assms(2)]
  have id: "tx_id tx = tx_seq db" using acc(4) by simp
  have "postings db' = postings db @ map (posting_of (tx_seq db)) es"
    using post_entries_postings_ok[OF acc(5)] by simp
  then have own: "postings_of db' (tx_id tx) = map (posting_of (tx_id tx)) es"
    using consistent_fresh_id[OF assms(1)] id by (simp add: postings_of_def)
  have "transactions db' = transactions db @ [tx]"
    using post_entries_transactions[of "tx_seq db" "flushed db ref ty d es" es] acc(4,5) by simp
  then have mem: "tx \<in> set (transactions db')" by simp
  have "sum_list (map amount (map (posting_of (tx_id tx)) es)) = sum_list (map snd es)"
    by (simp only: amount_posting_of)
  then have "sum_list (map amount (postings_of db' (tx_id tx))) = 0"
    using own acc(1) by simp
  then show ?thesis using own mem by blast
qed

theorem accepted_postings_sum_to_zero_witness:
  "consistent seed \<and>
   fst (process_transaction Min seed ''r1'' TOPUP ''Wallet Top-up'' [(2, - 100), (3, 100)]) =
     Inr \<lparr>tx_id = 4, reference_id = ''r1'', tx_type = TOPUP, description = ''Wallet Top-up''\<rparr> \<and>
   postings_of (snd (process_transaction Min seed ''r1'' TOPUP ''Wallet Top-up''
      [(2, - 100), (3, 100)])) 4 =
     [\<lparr>transaction_id = 4, account_id = 2, amount = - 100\<rparr>,
      \<lparr>transaction_id = 4, account_id = 3, amount = 100\<rparr>] \<and>
   sum_list (map amount (postings_of (snd (process_transaction Min seed ''r1'' TOPUP
      ''Wallet Top-up'' [(2, - 100), (3, 100)])) 4)) = 0"
proof -
  let ?p = "process_transaction Min seed ''r1'' TOPUP ''Wallet Top-up'' [(2, - 100), (3, 100)]"
  let ?tx = "\<lparr>tx_id = 4, reference_id = ''r1'', tx_type = TOPUP, description = ''Wallet Top-up''\<rparr>"
  have c: "consistent seed" by (simp add: consistent_def seed_def)
  have f: "fst ?p = Inr ?tx" by (simp add: ev)
  have first: "?p = (Inr ?tx, snd ?p)" using f by (simp add: prod_eq_iff)
  note th = accepted_postings_sum_to_zero[OF c first]
  have z: "sum_list (map amount (postings_of (snd ?p) 4)) = 0"
    using conjunct1[OF th] by simp
  have o: "postings_of (snd ?p) 4 =
     [\<lparr>transaction_id = 4, account_id = 2, amount = - 100\<rparr>,
      \<lparr>transaction_id = 4, account_id = 3, amount = 100\<rparr>]"
    using conjunct1[OF conjunct2[OF th]] by (simp add: posting_of_def)
  show ?thesis
    by (intro conjI) (rule c f o z)+
qed

text \<open>
  C5. Atomicity under failure, on a database that meets the schema's constraints.
  When the unit of work around \<open>process_transaction\<close> fails, the three tables are the
  committed ones, row for row, and the error is one of the four kinds: \<open>ValueError\<close> of
  the sum, \<open>IdempotencyError\<close> of the reference id, \<open>AccountNotFoundError\<close> or
  \<open>InsufficientFundsError\<close>. The first three are raised before the service has written
  anything, so the session's own tables are untouched as well; a call that fails with
  \<open>InsufficientFundsError\<close> has by then flushed its transaction row and posted the
  entries before the failing one in the session, and it is the missing commit, with the
  rollback when the session closes, that discards them. An account id among the entries
  that the accounts table does not hold makes a balanced call with a fresh reference id
  fail with \<open>AccountNotFoundError\<close> and no row changed. The \<open>spend\<close> handler, failing,
  leaves the tables as they were.
\<close>

theorem failed_call_leaves_no_trace:
  assumes "consistent db"
  shows "(fst (process f db ref ty d es) = Inl e \<longrightarrow>
            tables (snd (process f db ref ty d es)) = tables db \<and>
            (e = ValueError (sum_list (map snd es)) \<or> e = IdempotencyError ref \<or>
             (\<exists>i. e = AccountNotFoundError i) \<or> (\<exists>i. e = InsufficientFundsError i))) \<and>
         (process_transaction f db ref ty d es = (Inl e, db') \<and>
            (\<forall>i. e \<noteq> InsufficientFundsError i) \<longrightarrow> tables db' = tables db) \<and>
         (sum_list (map snd es) = 0 \<and> ref \<notin> reference_id ` set (transactions db) \<and>
            \<not> fst ` set es \<subseteq> acc_id ` set (accounts db) \<longrightarrow>
            process_transaction f db ref ty d es =
              (Inl (AccountNotFoundError (f (fst ` set es - acc_id ` set (accounts db)))),
               locked_session db es) \<and>
            tables (locked_session db es) = tables db) \<and>
         (fst (spend f db r) = Inl x \<longrightarrow> tables (snd (spend f db r)) = tables db)"
proof (intro conjI impI)
  assume a: "fst (process f db ref ty d es) = Inl e"
  show "tables (snd (process f db ref ty d es)) = tables db" by (rule process_failed[OF a])
  let ?p = "process_transaction f (begin_session db) ref ty d es"
  have "fst ?p = Inl e" using a by (simp add: process_result)
  then have p: "?p = (Inl e, snd ?p)" by (simp add: prod_eq_iff)
  have b: "consistent (begin_session db)" using assms by simp
  show "e = ValueError (sum_list (map snd es)) \<or> e = IdempotencyError ref \<or>
        (\<exists>i. e = AccountNotFoundError i) \<or> (\<exists>i. e = InsufficientFundsError i)"
    using consistent_errors[OF b p] by blast
next
  assume "process_transaction f db ref ty d es = (Inl e, db') \<and> (\<forall>i. e \<noteq> InsufficientFundsError i)"
  then show "tables db' = tables db"
    using consistent_errors[OF assms, of f ref ty d es e db'] by (auto simp: tables_def)
next
  assume h: "sum_list (map snd es) = 0 \<and> ref \<notin> reference_id ` set (transactions db) \<and>
            \<not> fst ` set es \<subseteq> acc_id ` set (accounts db)"
  from assms show "process_transaction f db ref ty d es =
              (Inl (AccountNotFoundError (f (fst ` set es - acc_id ` set (accounts db)))),
               locked_session db es)"
  proof (cases rule: consistent_cases[of db es f ref ty d])
    case not_found
    then show ?thesis by simp
  qed (use h in auto)
next
  show "tables (locked_session db es) = tables db" by (simp add: tables_def)
next
  assume "fst (spend f db r) = Inl x"
  then show "tables (snd (spend f db r)) = tables db" by (rule spend_failed)
qed

theorem failed_call_leaves_no_trace_witness:
  "consistent seed \<and>
   fst (process_transaction Min seed ''r9'' PURCHASE ''Purchase Item'' [(2, 80), (4, - 80)]) =
     Inl (InsufficientFundsError 4) \<and>
   map balance (accounts (snd (process_transaction Min seed ''r9'' PURCHASE ''Purchase Item''
     [(2, 80), (4, - 80)]))) = [- 1000000000, 999999930, 100, 50] \<and>
   length (transactions (snd (process_transaction Min seed ''r9'' PURCHASE ''Purchase Item''
     [(2, 80), (4, - 80)]))) = 4 \<and>
   fst (process Min seed ''r9'' PURCHASE ''Purchase Item'' [(2, 80), (4, - 80)]) =
     Inl (InsufficientFundsError 4) \<and>
   tables (snd (process Min seed ''r9'' PURCHASE ''Purchase Item'' [(2, 80), (4, - 80)])) =
     tables seed \<and>
   sum_list (map snd [(3 :: int, - 150 :: int), (999, 150)]) = 0 \<and>
   ''r9'' \<notin> reference_id ` set (transactions seed) \<and>
   \<not> fst ` set [(3 :: int, - 150 :: int), (999, 150)] \<subseteq> acc_id ` set (accounts seed) \<and>
   process_transaction Min seed ''r9'' PURCHASE ''Purchase Item'' [(3, - 150), (999, 150)] =
     (Inl (AccountNotFoundError 999), locked_session seed [(3, - 150), (999, 150)]) \<and>
   tables (locked_session seed [(3, - 150), (999, 150)]) = tables seed \<and>
   fst (spend Min seed bob_spends_80) =
     Inl (HTTPException 400 (WalletError (InsufficientFundsError 4))) \<and>
   tables (snd (spend Min seed bob_spends_80)) = tables seed"
proof -
  let ?es = "[(2 :: int, 80 :: int), (4, - 80)]"
  let ?us = "[(3 :: int, - 150 :: int), (999, 150)]"
  have c: "consistent seed" by (simp add: consistent_def seed_def)
  have e1: "fst (process_transaction Min seed ''r9'' PURCHASE ''Purchase Item'' ?es) =
     Inl (InsufficientFundsError 4)"
    by (simp add: ev)
  have e2: "map balance (accounts (snd (process_transaction Min seed ''r9'' PURCHASE
     ''Purchase Item'' ?es))) = [- 1000000000, 999999930, 100, 50]"
    by (simp add: ev)
  have e3: "length (transactions (snd (process_transaction Min seed ''r9'' PURCHASE
     ''Purchase Item'' ?es))) = 4"
    by (simp add: ev)
  have e4: "fst (process Min seed ''r9'' PURCHASE ''Purchase Item'' ?es) =
     Inl (InsufficientFundsError 4)"
    by (simp add: ev process_def begin_session_def)
  have e5: "fst (spend Min seed bob_spends_80) =
     Inl (HTTPException 400 (WalletError (InsufficientFundsError 4)))"
    by (simp add: ev spend_def bob_spends_80_def get_system_account_def
        get_user_main_account_def description_or_def try_process_def process_def
        begin_session_def is_wallet_exception_def)
  have h1: "sum_list (map snd ?us) = 0" by simp
  have h2: "''r9'' \<notin> reference_id ` set (transactions seed)" by (simp add: seed_def)
  have h3: "\<not> fst ` set ?us \<subseteq> acc_id ` set (accounts seed)" by (simp add: seed_def)
  have m: "fst ` set ?us - acc_id ` set (accounts seed) = {999}" by (auto simp: seed_def)
  note a = failed_call_leaves_no_trace[OF c, of Min "''r9''" PURCHASE "''Purchase Item''" ?es
      "InsufficientFundsError 4" _ bob_spends_80]
  note b = failed_call_leaves_no_trace[OF c, of Min "''r9''" PURCHASE "''Purchase Item''" ?us
      "AccountNotFoundError 999" "locked_session seed ?us"]
  have t1: "tables (snd (process Min seed ''r9'' PURCHASE ''Purchase Item'' ?es)) = tables seed"
    using conjunct1[OF a] e4 by blast
  have t2: "tables (snd (spend Min seed bob_spends_80)) = tables seed"
    using conjunct2[OF conjunct2[OF conjunct2[OF a]]] e5 by blast
  have nf: "process_transaction Min seed ''r9'' PURCHASE ''Purchase Item'' ?us =
     (Inl (AccountNotFoundError (Min (fst ` set ?us - acc_id ` set (accounts seed)))),
      locked_session seed ?us) \<and> tables (locked_session seed ?us) = tables seed"
    using conjunct1[OF conjunct2[OF conjunct2[OF b]]] h1 h2 h3 by blast
  have n1: "process_transaction Min seed ''r9'' PURCHASE ''Purchase Item'' ?us =
     (Inl (AccountNotFoundError 999), locked_session seed ?us)"
    using conjunct1[OF nf] unfolding m by simp
  have n2: "tables (locked_session seed ?us) = tables seed"
    using conjunct1[OF conjunct2[OF b]] n1 by simp
  show ?thesis
    by (intro conjI) (rule c e1 e2 e3 e4 t1 h1 h2 h3 n1 n2 e5 t2)+
qed

text \<open>
  C6, as the specification words it, fails: the code checks each entry against the
  running balance and does not aggregate first. On the seeded database the entries
  \<open>[(3, -150), (3, 150)]\<close> have net effect 0 on account 3, whose balance is 100, so the
  check on pre-aggregated amounts passes; the call is rejected with
  \<open>InsufficientFundsError 3\<close> at its first entry.
\<close>

theorem net_check_counterexample:
  "consistent seed \<and>
   sum_list (map snd [(3 :: int, - 150 :: int), (3, 150)]) = 0 \<and>
   ''r1'' \<notin> reference_id ` set (transactions seed) \<and>
   net_ok seed [(3, - 150), (3, 150)] \<and>
   fst (process_transaction Min seed ''r1'' TOPUP ''Wallet Top-up'' [(3, - 150), (3, 150)]) =
     Inl (InsufficientFundsError 3)"
  by (simp add: ev consistent_def net_ok_def unique_account_ids_def account_of_def net_def)

text \<open>
  C6, amended. On a consistent database, a balanced call with a fresh reference id is
  accepted exactly when every entry passes the check of line 113 in list order: its
  account exists and is exempt, or the account's balance before the call plus the
  amounts of that account's entries up to and including this one is not negative. When
  the accounts exist and some entry fails, the call is rejected with
  \<open>InsufficientFundsError\<close> of the account of the first failing entry. Every accepted
  call passes the check on pre-aggregated amounts; the two checks agree on entry lists
  that name no account twice.
\<close>

theorem check_is_entry_by_entry:
  assumes "consistent db" and "sum_list (map snd es) = 0"
    and "ref \<notin> reference_id ` set (transactions db)"
  shows "((\<exists>tx db'. process_transaction f db ref ty d es = (Inr tx, db')) \<longleftrightarrow> entries_ok db es) \<and>
         (\<not> entries_ok db es \<and> fst ` set es \<subseteq> acc_id ` set (accounts db) \<longrightarrow>
            (\<exists>k<length es. (\<forall>k'<k. entry_ok db es k') \<and> \<not> entry_ok db es k \<and>
               fst (process_transaction f db ref ty d es) =
                 Inl (InsufficientFundsError (fst (es ! k))))) \<and>
         (entries_ok db es \<longrightarrow> net_ok db es) \<and>
         (distinct (map fst es) \<longrightarrow> (entries_ok db es \<longleftrightarrow> net_ok db es))"
proof (intro conjI impI)
  show iff: "(\<exists>tx db'. process_transaction f db ref ty d es = (Inr tx, db')) \<longleftrightarrow> entries_ok db es"
    by (rule accepted_iff_entries_ok[OF assms])
  show "entries_ok db es \<Longrightarrow> net_ok db es" by (rule entries_ok_net_ok)
  show "distinct (map fst es) \<Longrightarrow> entries_ok db es \<longleftrightarrow> net_ok db es"
    using entries_ok_net_ok net_ok_entries_ok by blast
  assume h: "\<not> entries_ok db es \<and> fst ` set es \<subseteq> acc_id ` set (accounts db)"
  from assms(1) show "\<exists>k<length es. (\<forall>k'<k. entry_ok db es k') \<and> \<not> entry_ok db es k \<and>
               fst (process_transaction f db ref ty d es) =
                 Inl (InsufficientFundsError (fst (es ! k)))"
  proof (cases rule: consistent_cases[of db es f ref ty d])
    case unbalanced
    then show ?thesis using assms(2) by simp
  next
    case duplicate
    then show ?thesis using assms(3) by simp
  next
    case not_found
    then show ?thesis using h by auto
  next
    case (rejected i db')
    from post_entries_first_failure[OF rejected(5)] obtain k where k: "k < length es"
      "\<forall>k'<k. entry_ok (flushed db ref ty d es) es k'"
      "\<not> entry_ok (flushed db ref ty d es) es k"
      "i = fst (es ! k)"
      by auto
    have c: "\<And>j. entry_ok (flushed db ref ty d es) es j = entry_ok db es j"
      by (rule entry_ok_cong) simp
    show ?thesis
      using k rejected(6) unfolding c by (intro exI[of _ k]) simp
  next
    case (accepted db')
    then show ?thesis using iff h by simp
  qed
qed

theorem check_is_entry_by_entry_witness:
  "consistent seed \<and>
   sum_list (map snd [(3 :: int, 150 :: int), (3, - 150)]) = 0 \<and>
   sum_list (map snd [(3 :: int, - 150 :: int), (3, 150)]) = 0 \<and>
   ''r1'' \<notin> reference_id ` set (transactions seed) \<and>
   entries_ok seed [(3, 150), (3, - 150)] \<and>
   fst (process_transaction Min seed ''r1'' TOPUP ''Wallet Top-up'' [(3, 150), (3, - 150)]) =
     Inr \<lparr>tx_id = 4, reference_id = ''r1'', tx_type = TOPUP, description = ''Wallet Top-up''\<rparr> \<and>
   net_ok seed [(3, 150), (3, - 150)] \<and>
   \<not> entries_ok seed [(3, - 150), (3, 150)] \<and>
   fst ` set [(3 :: int, - 150 :: int), (3, 150)] \<subseteq> acc_id ` set (accounts seed) \<and>
   \<not> entry_ok seed [(3, - 150), (3, 150)] 0 \<and>
   fst (process_transaction Min seed ''r1'' TOPUP ''Wallet Top-up'' [(3, - 150), (3, 150)]) =
     Inl (InsufficientFundsError 3) \<and>
   distinct (map fst [(4 :: int, - 80 :: int), (2, 80)]) \<and>
   \<not> net_ok seed [(4, - 80), (2, 80)] \<and>
   \<not> entries_ok seed [(4, - 80), (2, 80)] \<and>
   (\<exists>tx db'. process_transaction Min seed ''r1'' TOPUP ''Wallet Top-up''
      [(3, 150), (3, - 150)] = (Inr tx, db')) \<and>
   (\<exists>k<length [(3 :: int, - 150 :: int), (3, 150)].
      (\<forall>k'<k. entry_ok seed [(3, - 150), (3, 150)] k') \<and>
      \<not> entry_ok seed [(3, - 150), (3, 150)] k \<and>
      fst (process_transaction Min seed ''r1'' TOPUP ''Wallet Top-up'' [(3, - 150), (3, 150)]) =
        Inl (InsufficientFundsError (fst ([(3 :: int, - 150 :: int), (3, 150)] ! k))))"
proof -
  let ?up = "[(3 :: int, 150 :: int), (3, - 150)]"
  let ?down = "[(3 :: int, - 150 :: int), (3, 150)]"
  let ?bob = "[(4 :: int, - 80 :: int), (2, 80)]"
  have c: "consistent seed" by (simp add: consistent_def seed_def)
  have s1: "sum_list (map snd ?up) = 0" by simp
  have s2: "sum_list (map snd ?down) = 0" by simp
  have s3: "sum_list (map snd ?bob) = 0" by simp
  have r: "''r1'' \<notin> reference_id ` set (transactions seed)" by (simp add: seed_def)
  have ok: "entries_ok seed ?up"
    by (simp add: entries_ok_iff all_less_Suc entry_ok_def account_of_def seed_def
        exempt_names_def numeral_2_eq_2)
  have nok: "\<not> entry_ok seed ?down 0"
    by (simp add: entry_ok_def account_of_def seed_def exempt_names_def)
  then have bad: "\<not> entries_ok seed ?down" by (auto simp: entries_ok_iff)
  have found: "fst ` set ?down \<subseteq> acc_id ` set (accounts seed)" by (simp add: seed_def)
  have e1: "fst (process_transaction Min seed ''r1'' TOPUP ''Wallet Top-up'' ?up) =
     Inr \<lparr>tx_id = 4, reference_id = ''r1'', tx_type = TOPUP, description = ''Wallet Top-up''\<rparr>"
    by (simp add: ev)
  have e2: "fst (process_transaction Min seed ''r1'' TOPUP ''Wallet Top-up'' ?down) =
     Inl (InsufficientFundsError 3)"
    by (simp add: ev)
  have dist: "distinct (map fst ?bob)" by simp
  have nnet: "\<not> net_ok seed ?bob"
    by (simp add: net_ok_def unique_account_ids_def account_of_def seed_def exempt_names_def)
  note up = check_is_entry_by_entry[OF c s1 r, of Min TOPUP "''Wallet Top-up''"]
  note bob = check_is_entry_by_entry[OF c s3 r, of Min TOPUP "''Wallet Top-up''"]
  have net: "net_ok seed ?up"
    using conjunct1[OF conjunct2[OF conjunct2[OF up]]] ok by blast
  have nbob: "\<not> entries_ok seed ?bob"
    using conjunct2[OF conjunct2[OF conjunct2[OF bob]]] dist nnet by blast
  note down = check_is_entry_by_entry[OF c s2 r, of Min TOPUP "''Wallet Top-up''"]
  have acc: "\<exists>tx db'. process_transaction Min seed ''r1'' TOPUP ''Wallet Top-up'' ?up = (Inr tx, db')"
    using conjunct1[OF up] ok by blast
  have rej: "\<exists>k<length ?down. (\<forall>k'<k. entry_ok seed ?down k') \<and> \<not> entry_ok seed ?down k \<and>
      fst (process_transaction Min seed ''r1'' TOPUP ''Wallet Top-up'' ?down) =
        Inl (InsufficientFundsError (fst (?down ! k)))"
    by (rule mp[OF conjunct1[OF conjunct2[OF down]] conjI[OF bad found]])
  show ?thesis
    by (intro conjI) (rule c s1 s2 r ok e1 net bad found nok e2 dist nnet nbob acc rej)+
qed

text \<open>
  C2, as the specification words it, fails in the account the error names. On the seeded
  database the entries \<open>[(3, -150), (3, 150), (4, -80), (2, 80)]\<close> are balanced, the
  reference id is fresh and the four accounts exist; they would take account 4, whose
  balance is 50, to -30. The call fails with \<open>InsufficientFundsError 3\<close>: the loop stops
  at its first entry, on account 3, whose balance of 100 the entries leave at 100.
\<close>

theorem overdrawn_account_counterexample:
  "consistent seed \<and>
   account_of seed 4 = Some \<lparr>acc_id = 4, user_id = Some 3, name = ''Bob's Wallet'',
     currency = ''GOLD'', balance = 50, version = 0\<rparr> \<and>
   ''Bob's Wallet'' \<notin> set exempt_names \<and>
   4 \<in> fst ` set [(3 :: int, - 150 :: int), (3, 150), (4, - 80), (2, 80)] \<and>
   50 + net [(3, - 150), (3, 150), (4, - 80), (2, 80)] 4 < 0 \<and>
   sum_list (map snd [(3 :: int, - 150 :: int), (3, 150), (4, - 80), (2, 80)]) = 0 \<and>
   ''r9'' \<notin> reference_id ` set (transactions seed) \<and>
   fst ` set [(3 :: int, - 150 :: int), (3, 150), (4, - 80), (2, 80)] \<subseteq>
     acc_id ` set (accounts seed) \<and>
   account_of seed 3 = Some \<lparr>acc_id = 3, user_id = Some 2, name = ''Alice's Wallet'',
     currency = ''GOLD'', balance = 100, version = 0\<rparr> \<and>
   100 + net [(3, - 150), (3, 150), (4, - 80), (2, 80)] 3 = 100 \<and>
   fst (process_transaction Min seed ''r9'' PURCHASE ''Purchase Item''
     [(3, - 150), (3, 150), (4, - 80), (2, 80)]) = Inl (InsufficientFundsError 3) \<and>
   fst (process Min seed ''r9'' PURCHASE ''Purchase Item''
     [(3, - 150), (3, 150), (4, - 80), (2, 80)]) = Inl (InsufficientFundsError 3) \<and>
   fst (process Min seed ''r9'' PURCHASE ''Purchase Item''
     [(3, - 150), (3, 150), (4, - 80), (2, 80)]) \<noteq> Inl (InsufficientFundsError 4)"
proof -
  let ?es = "[(3 :: int, - 150 :: int), (3, 150), (4, - 80), (2, 80)]"
  have c: "consistent seed" by (simp add: consistent_def seed_def)
  have b: "account_of seed 4 = Some \<lparr>acc_id = 4, user_id = Some 3, name = ''Bob's Wallet'',
     currency = ''GOLD'', balance = 50, version = 0\<rparr>"
    by (simp add: account_of_def seed_def)
  have n: "''Bob's Wallet'' \<notin> set exempt_names" by (simp add: exempt_names_def)
  have i: "4 \<in> fst ` set ?es" by simp
  have neg: "50 + net ?es 4 < 0" by (simp add: net_def)
  have s: "sum_list (map snd ?es) = 0" by simp
  have r: "''r9'' \<notin> reference_id ` set (transactions seed)" by (simp add: seed_def)
  have found: "fst ` set ?es \<subseteq> acc_id ` set (accounts seed)" by (simp add: seed_def)
  have a: "account_of seed 3 = Some \<lparr>acc_id = 3, user_id = Some 2, name = ''Alice's Wallet'',
     currency = ''GOLD'', balance = 100, version = 0\<rparr>"
    by (simp add: account_of_def seed_def)
  have same: "100 + net ?es 3 = 100" by (simp add: net_def)
  have e1: "fst (process_transaction Min seed ''r9'' PURCHASE ''Purchase Item'' ?es) =
     Inl (InsufficientFundsError 3)"
    by (simp add: ev)
  have e2: "fst (process Min seed ''r9'' PURCHASE ''Purchase Item'' ?es) =
     Inl (InsufficientFundsError 3)"
    by (simp add: ev process_def begin_session_def)
  have e3: "fst (process Min seed ''r9'' PURCHASE ''Purchase Item'' ?es) \<noteq>
     Inl (InsufficientFundsError 4)"
    unfolding e2 by simp
  show ?thesis
    by (intro conjI) (rule c b n i neg s r found a same e1 e2 e3)+
qed

text \<open>
  C2, amended. The floor, for an account whose name is not exempt, on a database that
  meets the schema's constraints. An accepted call leaves the account with its balance
  plus the net effect of the entries on it, and that is not negative when the entries
  name the account or the balance was not negative before; so no sequence of calls,
  accepted or not, takes the balance of such an account from zero or above to below
  zero. A call whose entries would take the account's balance below zero fails, and the
  unit of work around it leaves the three tables as they were: no transaction, no
  posting, no balance changed. When that call is balanced, its reference id fresh and
  its accounts all there, the failure is \<open>InsufficientFundsError\<close> of the account of the
  first entry, in list order, that does not pass the check: an account that is not
  exempt and whose balance plus the amounts of its entries so far is negative. That
  account need not be the one the entries overdraw; when no account id occurs twice in
  the entries, it is an account whose balance the entries would take below zero.
\<close>

theorem non_negative_floor:
  assumes "consistent db" and "account_of db i = Some a" and "name a \<notin> set exempt_names"
  shows "(process_transaction f db ref ty d es = (Inr tx, db') \<longrightarrow>
            account_of db' i = Some (a\<lparr>balance := balance a + net es i\<rparr>) \<and>
            (i \<in> fst ` set es \<or> 0 \<le> balance a \<longrightarrow> 0 \<le> balance a + net es i)) \<and>
         (0 \<le> balance a \<longrightarrow>
            (\<exists>a'. account_of (run f db calls) i = Some a' \<and> name a' = name a \<and>
               0 \<le> balance a')) \<and>
         (i \<in> fst ` set es \<and> balance a + net es i < 0 \<longrightarrow>
            (\<exists>e. fst (process f db ref ty d es) = Inl e) \<and>
            tables (snd (process f db ref ty d es)) = tables db \<and>
            (sum_list (map snd es) = 0 \<and> ref \<notin> reference_id ` set (transactions db) \<and>
             fst ` set es \<subseteq> acc_id ` set (accounts db) \<longrightarrow>
               (\<exists>k<length es. (\<forall>k'<k. entry_ok db es k') \<and> \<not> entry_ok db es k \<and>
                  (\<exists>b. account_of db (fst (es ! k)) = Some b \<and> name b \<notin> set exempt_names \<and>
                     balance b + net (take (Suc k) es) (fst (es ! k)) < 0 \<and>
                     (distinct (map fst es) \<longrightarrow> balance b + net es (fst (es ! k)) < 0)) \<and>
                  fst (process f db ref ty d es) = Inl (InsufficientFundsError (fst (es ! k))))))"
proof (intro conjI impI)
  assume acc: "process_transaction f db ref ty d es = (Inr tx, db')"
  show "account_of db' i = Some (a\<lparr>balance := balance a + net es i\<rparr>)"
    by (rule accepted_balance(1)[OF acc assms(2,3)])
  assume "i \<in> fst ` set es \<or> 0 \<le> balance a"
  then show "0 \<le> balance a + net es i" by (rule accepted_balance(2)[OF acc assms(2,3)])
next
  assume "0 \<le> balance a"
  then show "\<exists>a'. account_of (run f db calls) i = Some a' \<and> name a' = name a \<and> 0 \<le> balance a'"
    by (rule run_floor[OF assms(2,3)])
next
  assume neg: "i \<in> fst ` set es \<and> balance a + net es i < 0"
  let ?b = "begin_session db"
  let ?p = "process_transaction f ?b ref ty d es"
  have b: "account_of ?b i = Some a"
    using assms(2) account_of_cong[of ?b db i] by (simp add: begin_session_def)
  have no: "\<And>tx db'. ?p \<noteq> (Inr tx, db')"
  proof
    fix tx db' assume "?p = (Inr tx, db')"
    then have "0 \<le> balance a + net es i"
      using accepted_balance(2)[OF _ b assms(3)] neg by blast
    then show False using neg by simp
  qed
  then obtain e where e: "fst ?p = Inl e"
    by (cases ?p; cases "fst ?p") auto
  then have pe: "fst (process f db ref ty d es) = Inl e" by (simp add: process_result)
  then show "\<exists>e. fst (process f db ref ty d es) = Inl e" by blast
  show "tables (snd (process f db ref ty d es)) = tables db" by (rule process_failed[OF pe])
  assume h: "sum_list (map snd es) = 0 \<and> ref \<notin> reference_id ` set (transactions db) \<and>
             fst ` set es \<subseteq> acc_id ` set (accounts db)"
  have cb: "consistent ?b" using assms(1) by simp
  have tb: "transactions ?b = transactions db" "accounts ?b = accounts db"
    by (simp_all add: begin_session_def)
  from cb show "\<exists>k<length es. (\<forall>k'<k. entry_ok db es k') \<and> \<not> entry_ok db es k \<and>
      (\<exists>b. account_of db (fst (es ! k)) = Some b \<and> name b \<notin> set exempt_names \<and>
         balance b + net (take (Suc k) es) (fst (es ! k)) < 0 \<and>
         (distinct (map fst es) \<longrightarrow> balance b + net es (fst (es ! k)) < 0)) \<and>
      fst (process f db ref ty d es) = Inl (InsufficientFundsError (fst (es ! k)))"
  proof (cases rule: consistent_cases[of ?b es f ref ty d])
    case unbalanced
    then show ?thesis using h by simp
  next
    case duplicate
    then show ?thesis using h tb by simp
  next
    case not_found
    then show ?thesis using h tb by auto
  next
    case (rejected j db'')
    from post_entries_first_failure[OF rejected(5)] obtain k where k: "k < length es"
      "\<forall>k'<k. entry_ok (flushed ?b ref ty d es) es k'"
      "\<not> entry_ok (flushed ?b ref ty d es) es k" "j = fst (es ! k)"
      by auto
    have c: "\<And>n. entry_ok (flushed ?b ref ty d es) es n = entry_ok db es n"
      by (rule entry_ok_cong) (simp add: begin_session_def)
    have before: "\<forall>k'<k. entry_ok db es k'" using k(2) unfolding c .
    have at: "\<not> entry_ok db es k" using k(3) unfolding c .
    have "fst (es ! k) \<in> acc_id ` set (accounts db)" using h k(1) by auto
    then obtain b where b: "account_of db (fst (es ! k)) = Some b"
      unfolding account_of_def using find_acc_id_None[of "fst (es ! k)" "accounts db"]
      by (cases "find (\<lambda>a. acc_id a = fst (es ! k)) (accounts db)") auto
    have nb: "name b \<notin> set exempt_names"
      and run: "balance b + net (take (Suc k) es) (fst (es ! k)) < 0"
      using at b by (auto simp: entry_ok_def)
    have whole: "distinct (map fst es) \<longrightarrow> balance b + net es (fst (es ! k)) < 0"
      using run net_take_distinct[of es k] k(1) by auto
    have err: "fst (process f db ref ty d es) = Inl (InsufficientFundsError (fst (es ! k)))"
      using rejected(6) k(4) by (simp add: process_result)
    show ?thesis
      using k(1) before at b nb run whole err by blast
  next
    case (accepted db'')
    then show ?thesis using no by blast
  qed
qed

theorem non_negative_floor_witness:
  "consistent seed \<and>
   account_of seed 4 = Some \<lparr>acc_id = 4, user_id = Some 3, name = ''Bob's Wallet'',
     currency = ''GOLD'', balance = 50, version = 0\<rparr> \<and>
   ''Bob's Wallet'' \<notin> set exempt_names \<and>
   fst (process_transaction Min seed ''r1'' PURCHASE ''Purchase Item''
     [(4 :: int, - 30 :: int), (2, 30)]) =
     Inr \<lparr>tx_id = 4, reference_id = ''r1'', tx_type = PURCHASE, description = ''Purchase Item''\<rparr> \<and>
   account_of (snd (process_transaction Min seed ''r1'' PURCHASE ''Purchase Item''
     [(4 :: int, - 30 :: int), (2, 30)])) 4 =
     Some \<lparr>acc_id = 4, user_id = Some 3, name = ''Bob's Wallet'',
       currency = ''GOLD'', balance = 20, version = 0\<rparr> \<and>
   (\<exists>a'. account_of (run Min seed
       [(''r1'', PURCHASE, ''Purchase Item'', [(4, - 30), (2, 30)]),
        (''r2'', PURCHASE, ''Purchase Item'', [(4, - 30), (2, 30)])]) 4 = Some a' \<and>
      name a' = ''Bob's Wallet'' \<and> 0 \<le> balance a') \<and>
   4 \<in> fst ` set [(4 :: int, - 80 :: int), (2, 80)] \<and>
   50 + net [(4 :: int, - 80 :: int), (2, 80)] 4 < 0 \<and>
   sum_list (map snd [(4 :: int, - 80 :: int), (2, 80)]) = 0 \<and>
   ''r9'' \<notin> reference_id ` set (transactions seed) \<and>
   fst ` set [(4 :: int, - 80 :: int), (2, 80)] \<subseteq> acc_id ` set (accounts seed) \<and>
   fst (process Min seed ''r9'' PURCHASE ''Purchase Item'' [(4 :: int, - 80 :: int), (2, 80)]) =
     Inl (InsufficientFundsError 4) \<and>
   tables (snd (process Min seed ''r9'' PURCHASE ''Purchase Item''
     [(4 :: int, - 80 :: int), (2, 80)])) = tables seed \<and>
   distinct (map fst [(4 :: int, - 80 :: int), (2, 80)]) \<and>
   (\<exists>k<length [(4 :: int, - 80 :: int), (2, 80)].
      \<not> entry_ok seed [(4 :: int, - 80 :: int), (2, 80)] k \<and>
      (\<exists>b. account_of seed (fst ([(4 :: int, - 80 :: int), (2, 80)] ! k)) = Some b \<and>
         name b \<notin> set exempt_names \<and>
         balance b + net [(4 :: int, - 80 :: int), (2, 80)]
           (fst ([(4 :: int, - 80 :: int), (2, 80)] ! k)) < 0) \<and>
      fst (process Min seed ''r9'' PURCHASE ''Purchase Item'' [(4 :: int, - 80 :: int), (2, 80)]) =
        Inl (InsufficientFundsError (fst ([(4 :: int, - 80 :: int), (2, 80)] ! k))))"
proof -
  let ?bob = "\<lparr>acc_id = 4, user_id = Some 3, name = ''Bob's Wallet'',
     currency = ''GOLD'', balance = 50, version = 0\<rparr>"
  let ?ok = "[(4 :: int, - 30 :: int), (2, 30)]"
  let ?bad = "[(4 :: int, - 80 :: int), (2, 80)]"
  let ?calls = "[(''r1'', PURCHASE, ''Purchase Item'', ?ok), (''r2'', PURCHASE, ''Purchase Item'', ?ok)]"
  let ?tx = "\<lparr>tx_id = 4, reference_id = ''r1'', tx_type = PURCHASE, description = ''Purchase Item''\<rparr>"
  let ?p = "process_transaction Min seed ''r1'' PURCHASE ''Purchase Item'' ?ok"
  have c: "consistent seed" by (simp add: consistent_def seed_def)
  have a: "account_of seed 4 = Some ?bob" by (simp add: account_of_def seed_def)
  have n: "name ?bob \<notin> set exempt_names" by (simp add: exempt_names_def)
  then have n': "''Bob's Wallet'' \<notin> set exempt_names" by simp
  have f: "fst ?p = Inr ?tx" by (simp add: ev)
  have first: "?p = (Inr ?tx, snd ?p)" using f by (simp add: prod_eq_iff)
  have i: "4 \<in> fst ` set ?bad" by simp
  have neg: "50 + net ?bad 4 < 0" by (simp add: net_def)
  have s: "sum_list (map snd ?bad) = 0" by simp
  have r: "''r9'' \<notin> reference_id ` set (transactions seed)" by (simp add: seed_def)
  have found: "fst ` set ?bad \<subseteq> acc_id ` set (accounts seed)" by (simp add: seed_def)
  have e: "fst (process Min seed ''r9'' PURCHASE ''Purchase Item'' ?bad) =
     Inl (InsufficientFundsError 4)"
    by (simp add: ev process_def begin_session_def)
  note good = non_negative_floor[OF c a n, of Min "''r1''" PURCHASE "''Purchase Item''" ?ok ?tx
      "snd ?p" ?calls]
  note bad = non_negative_floor[OF c a n, of Min "''r9''" PURCHASE "''Purchase Item''" ?bad]
  have "account_of (snd ?p) 4 = Some (?bob\<lparr>balance := balance ?bob + net ?ok 4\<rparr>)"
    using conjunct1[OF good] first by blast
  then have after: "account_of (snd ?p) 4 =
     Some \<lparr>acc_id = 4, user_id = Some 3, name = ''Bob's Wallet'',
       currency = ''GOLD'', balance = 20, version = 0\<rparr>"
    by (simp add: net_def)
  have "\<exists>a'. account_of (run Min seed ?calls) 4 = Some a' \<and> name a' = name ?bob \<and> 0 \<le> balance a'"
    using conjunct1[OF conjunct2[OF good]] by simp
  then have seq: "\<exists>a'. account_of (run Min seed ?calls) 4 = Some a' \<and>
      name a' = ''Bob's Wallet'' \<and> 0 \<le> balance a'"
    by simp
  have "i \<in> fst ` set ?bad \<and> balance ?bob + net ?bad i < 0" if "i = 4" for i :: int
    using that i neg by simp
  then have rejected: "(\<exists>e. fst (process Min seed ''r9'' PURCHASE ''Purchase Item'' ?bad) = Inl e) \<and>
      tables (snd (process Min seed ''r9'' PURCHASE ''Purchase Item'' ?bad)) = tables seed \<and>
      (sum_list (map snd ?bad) = 0 \<and> ''r9'' \<notin> reference_id ` set (transactions seed) \<and>
       fst ` set ?bad \<subseteq> acc_id ` set (accounts seed) \<longrightarrow>
         (\<exists>k<length ?bad. (\<forall>k'<k. entry_ok seed ?bad k') \<and> \<not> entry_ok seed ?bad k \<and>
            (\<exists>b. account_of seed (fst (?bad ! k)) = Some b \<and> name b \<notin> set exempt_names \<and>
               balance b + net (take (Suc k) ?bad) (fst (?bad ! k)) < 0 \<and>
               (distinct (map fst ?bad) \<longrightarrow> balance b + net ?bad (fst (?bad ! k)) < 0)) \<and>
            fst (process Min seed ''r9'' PURCHASE ''Purchase Item'' ?bad) =
              Inl (InsufficientFundsError (fst (?bad ! k)))))"
    using conjunct2[OF conjunct2[OF bad]] by blast
  have t: "tables (snd (process Min seed ''r9'' PURCHASE ''Purchase Item'' ?bad)) = tables seed"
    by (rule conjunct1[OF conjunct2[OF rejected]])
  have dist: "distinct (map fst ?bad)" by simp
  have "\<exists>k<length ?bad. (\<forall>k'<k. entry_ok seed ?bad k') \<and> \<not> entry_ok seed ?bad k \<and>
      (\<exists>b. account_of seed (fst (?bad ! k)) = Some b \<and> name b \<notin> set exempt_names \<and>
         balance b + net (take (Suc k) ?bad) (fst (?bad ! k)) < 0 \<and>
         (distinct (map fst ?bad) \<longrightarrow> balance b + net ?bad (fst (?bad ! k)) < 0)) \<and>
      fst (process Min seed ''r9'' PURCHASE ''Purchase Item'' ?bad) =
        Inl (InsufficientFundsError (fst (?bad ! k)))"
    by (rule mp[OF conjunct2[OF conjunct2[OF rejected]] conjI[OF s conjI[OF r found]]])
  then obtain k b where kb: "k < length ?bad" "\<not> entry_ok seed ?bad k"
    "account_of seed (fst (?bad ! k)) = Some b" "name b \<notin> set exempt_names"
    "distinct (map fst ?bad) \<longrightarrow> balance b + net ?bad (fst (?bad ! k)) < 0"
    "fst (process Min seed ''r9'' PURCHASE ''Purchase Item'' ?bad) =
        Inl (InsufficientFundsError (fst (?bad ! k)))"
    by blast
  have "balance b + net ?bad (fst (?bad ! k)) < 0" using kb(5) dist by (rule mp)
  then have k: "\<exists>k<length ?bad. \<not> entry_ok seed ?bad k \<and>
      (\<exists>b. account_of seed (fst (?bad ! k)) = Some b \<and> name b \<notin> set exempt_names \<and>
         balance b + net ?bad (fst (?bad ! k)) < 0) \<and>
      fst (process Min seed ''r9'' PURCHASE ''Purchase Item'' ?bad) =
        Inl (InsufficientFundsError (fst (?bad ! k)))"
    using kb(1,2,3,4,6) by blast
  show ?thesis
    by (intro conjI) (rule c a n' f after seq i neg s r found e t dist k)+
qed

end
